theory Spec2Isabelle
  imports Main "HOL-Library.Char_ord" "HOL-Library.List_Lexorder" "HOL-Library.AList"
begin

section \<open>MindCare: the conversation pipeline and its log store\<close>

text \<open>
  A shallow embedding of \<^verbatim>\<open>MindCare.py\<close>. Texts are \<^typ>\<open>string\<close>s of UTF-8 bytes, so
  the Korean literals of the source are written as byte lists and string comparison is
  the code-point order Python uses. What the program takes from outside is a parameter
  of a turn (\<open>env\<close>): the chat-completion service, the SHA-256 digest, the wall clock
  and the interpreter's limit for integer conversion. The
  effects of the program are explicit in a \<open>world\<close>: the \<^verbatim>\<open>logs\<close> directory, the
  requests sent to the completion service and the files written, in order. Every
  function that can raise returns \<open>error + 'a\<close> together with the world it leaves.

  Limits of the model: the decimal digits are those of Unicode 14.0 (the table of
  CPython 3.11), the lower-casing is the ASCII one (no non-ASCII character is lower-cased
  to an ASCII letter of \<^verbatim>\<open>true\<close> or of a farewell word, so these tests are not
  affected), JSON numbers are integers, a stored file is abstracted to the outcome of
  \<^verbatim>\<open>open\<close> and \<^verbatim>\<open>json.load\<close> on it, and writing a file does not fail.
\<close>

subsection \<open>Text helpers\<close>

fun startswith :: "string \<Rightarrow> string \<Rightarrow> bool" where
  "startswith [] t = True"
| "startswith (p # ps) [] = False"
| "startswith (p # ps) (c # cs) = (p = c \<and> startswith ps cs)"

definition endswith :: "string \<Rightarrow> string \<Rightarrow> bool" where
  "endswith p t = startswith (rev p) (rev t)"

text \<open>\<^verbatim>\<open>sub in t\<close> on strings.\<close>

fun contains :: "string \<Rightarrow> string \<Rightarrow> bool" where
  "contains sub [] = (sub = [])"
| "contains sub (c # cs) = (startswith sub (c # cs) \<or> contains sub cs)"

text \<open>\<^verbatim>\<open>t.replace(".json", "")\<close>: every occurrence, left to right, is removed.\<close>

fun remove_json :: "string \<Rightarrow> string" where
  "remove_json [] = []"
| "remove_json (c # cs) =
     (if startswith ''.json'' (c # cs) then remove_json (drop 4 cs) else c # remove_json cs)"

text \<open>
  The characters of a text, as code points: the UTF-8 decoding of its bytes, with \<open>v\<close> the
  bits read of the character under way and \<open>k\<close> the number of continuation bytes it
  still needs. (A Python string is always well formed; a stray byte gives U+FFFD here.)
\<close>

fun utf8_dec :: "int \<Rightarrow> nat \<Rightarrow> string \<Rightarrow> int list" where
  "utf8_dec v k [] = (if k = 0 then [] else [0xFFFD])"
| "utf8_dec v k (b # bs) =
     (let n = of_char b in
      if 0 < k \<and> 0x80 \<le> n \<and> n < 0xC0 then
        (if k = 1 then (v * 64 + (n - 0x80)) # utf8_dec 0 0 bs
         else utf8_dec (v * 64 + (n - 0x80)) (k - 1) bs)
      else
        (if 0 < k then [0xFFFD] else []) @
        (if n < 0x80 then n # utf8_dec 0 0 bs
         else if 0xC0 \<le> n \<and> n < 0xE0 then utf8_dec (n - 0xC0) 1 bs
         else if 0xE0 \<le> n \<and> n < 0xF0 then utf8_dec (n - 0xE0) 2 bs
         else if 0xF0 \<le> n \<and> n < 0xF8 then utf8_dec (n - 0xF0) 3 bs
         else 0xFFFD # utf8_dec 0 0 bs))"

definition code_points :: "string \<Rightarrow> int list" where
  "code_points t = utf8_dec 0 0 t"

text \<open>
  The decimal digits (\<^verbatim>\<open>\d\<close> of \<^verbatim>\<open>re\<close> on a string, and the digits \<^verbatim>\<open>int\<close> accepts):
  the characters of category Nd, which come in blocks of ten, from the digit zero listed
  here to the digit nine.
\<close>

definition decimal_zeros :: "int list" where
  "decimal_zeros =
     [0x30, 0x660, 0x6F0, 0x7C0, 0x966, 0x9E6, 0xA66, 0xAE6, 0xB66, 0xBE6, 0xC66, 0xCE6,
      0xD66, 0xDE6, 0xE50, 0xED0, 0xF20, 0x1040, 0x1090, 0x17E0, 0x1810, 0x1946, 0x19D0,
      0x1A80, 0x1A90, 0x1B50, 0x1BB0, 0x1C40, 0x1C50, 0xA620, 0xA8D0, 0xA900, 0xA9D0,
      0xA9F0, 0xAA50, 0xABF0, 0xFF10, 0x104A0, 0x10D30, 0x11066, 0x110F0, 0x11136, 0x111D0,
      0x112F0, 0x11450, 0x114D0, 0x11650, 0x116C0, 0x11730, 0x118E0, 0x11950, 0x11C50,
      0x11D50, 0x11DA0, 0x16A60, 0x16AC0, 0x16B50, 0x1D7CE, 0x1D7D8, 0x1D7E2, 0x1D7EC,
      0x1D7F6, 0x1E140, 0x1E2F0, 0x1E950, 0x1FBF0]"

definition unicode_decimal :: "int \<Rightarrow> int option" where
  "unicode_decimal c =
     (case find (\<lambda>z. z \<le> c \<and> c < z + 10) decimal_zeros of
        None \<Rightarrow> None
      | Some z \<Rightarrow> Some (c - z))"

definition is_digit :: "int \<Rightarrow> bool" where
  "is_digit c = (unicode_decimal c \<noteq> None)"

definition digit_value :: "int \<Rightarrow> int" where
  "digit_value c = (case unicode_decimal c of None \<Rightarrow> 0 | Some d \<Rightarrow> d)"

definition int_of_digits :: "int list \<Rightarrow> int" where
  "int_of_digits ds = foldl (\<lambda>a c. 10 * a + digit_value c) 0 ds"

text \<open>What \<^verbatim>\<open>re.search(r"\d+", text)\<close> matches: the first maximal run of digits; empty
  when there is no match.\<close>

definition first_digits :: "int list \<Rightarrow> int list" where
  "first_digits cs = takeWhile is_digit (dropWhile (\<lambda>c. \<not> is_digit c) cs)"

text \<open>
  The white space of \<^verbatim>\<open>str.strip()\<close>: the characters U+0009-000D, U+001C-0020, U+0085,
  U+00A0, U+1680, U+2000-200A, U+2028, U+2029, U+202F, U+205F and U+3000, in UTF-8.
\<close>

definition whitespace :: "string list" where
  "whitespace =
     [[CHR 0x09], [CHR 0x0A], [CHR 0x0B], [CHR 0x0C], [CHR 0x0D], [CHR 0x1C], [CHR 0x1D],
      [CHR 0x1E], [CHR 0x1F], [CHR 0x20], [CHR 0xC2, CHR 0x85], [CHR 0xC2, CHR 0xA0],
      [CHR 0xE1, CHR 0x9A, CHR 0x80], [CHR 0xE2, CHR 0x80, CHR 0x80],
      [CHR 0xE2, CHR 0x80, CHR 0x81], [CHR 0xE2, CHR 0x80, CHR 0x82],
      [CHR 0xE2, CHR 0x80, CHR 0x83], [CHR 0xE2, CHR 0x80, CHR 0x84],
      [CHR 0xE2, CHR 0x80, CHR 0x85], [CHR 0xE2, CHR 0x80, CHR 0x86],
      [CHR 0xE2, CHR 0x80, CHR 0x87], [CHR 0xE2, CHR 0x80, CHR 0x88],
      [CHR 0xE2, CHR 0x80, CHR 0x89], [CHR 0xE2, CHR 0x80, CHR 0x8A],
      [CHR 0xE2, CHR 0x80, CHR 0xA8], [CHR 0xE2, CHR 0x80, CHR 0xA9],
      [CHR 0xE2, CHR 0x80, CHR 0xAF], [CHR 0xE2, CHR 0x81, CHR 0x9F],
      [CHR 0xE3, CHR 0x80, CHR 0x80]]"

text \<open>
  Stripping the characters \<open>ws\<close> off the front of a text, one character at a time.
\<close>

function strip_leading :: "string list \<Rightarrow> string \<Rightarrow> string" where
  "strip_leading ws [] = []"
| "strip_leading ws (c # cs) =
     (case find (\<lambda>w. w \<noteq> [] \<and> startswith w (c # cs)) ws of
        None \<Rightarrow> c # cs
      | Some w \<Rightarrow> strip_leading ws (drop (length w) (c # cs)))"
  by pat_completeness auto

termination strip_leading
proof (relation "measure (\<lambda>(ws, t). length t)")
  show "wf (measure (\<lambda>(ws, t). length t))" by simp
next
  fix ws :: "string list" and c cs w
  assume "find (\<lambda>w. w \<noteq> [] \<and> startswith w (c # cs)) ws = Some w"
  then obtain i where "ws ! i \<noteq> [] \<and> startswith (ws ! i) (c # cs)" and "w = ws ! i"
    unfolding find_Some_iff by blast
  then have "w \<noteq> []" by simp
  then show "((ws, drop (length w) (c # cs)), (ws, c # cs)) \<in> measure (\<lambda>(ws, t). length t)"
    by (cases w) auto
qed

definition lstrip :: "string \<Rightarrow> string" where
  "lstrip t = strip_leading whitespace t"

definition rstrip :: "string \<Rightarrow> string" where
  "rstrip t = rev (strip_leading (map rev whitespace) (rev t))"

text \<open>\<^verbatim>\<open>t.strip()\<close>\<close>

definition strip :: "string \<Rightarrow> string" where
  "strip t = rstrip (lstrip t)"

definition lower_char :: "char \<Rightarrow> char" where
  "lower_char c =
     (if c \<in> set ''ABCDEFGHIJKLMNOPQRSTUVWXYZ'' then char_of (of_char c + (32::nat)) else c)"

definition lower :: "string \<Rightarrow> string" where
  "lower t = map lower_char t"

subsection \<open>The emotion table\<close>

definition label_fear :: string where
  "label_fear = [CHR 0xEA, CHR 0xB3, CHR 0xB5, CHR 0xED, CHR 0x8F, CHR 0xAC]"

definition label_surprise :: string where
  "label_surprise = [CHR 0xEB, CHR 0x86, CHR 0x80, CHR 0xEB, CHR 0x9E, CHR 0x8C]"

definition label_neutral :: string where
  "label_neutral = [CHR 0xEC, CHR 0xA4, CHR 0x91, CHR 0xEB, CHR 0xA6, CHR 0xBD]"

definition label_disgust :: string where
  "label_disgust = [CHR 0xED, CHR 0x98, CHR 0x90, CHR 0xEC, CHR 0x98, CHR 0xA4]"

definition label_anger :: string where
  "label_anger = [CHR 0xEB, CHR 0xB6, CHR 0x84, CHR 0xEB, CHR 0x85, CHR 0xB8]"

definition label_sadness :: string where
  "label_sadness = [CHR 0xEC, CHR 0x8A, CHR 0xAC, CHR 0xED, CHR 0x94, CHR 0x94]"

definition label_happiness :: string where
  "label_happiness = [CHR 0xED, CHR 0x96, CHR 0x89, CHR 0xEB, CHR 0xB3, CHR 0xB5]"

text \<open>The default label of \<^verbatim>\<open>emotion_mapping.get\<close> in \<^verbatim>\<open>generate_response\<close> ("unknown").\<close>

definition label_unknown :: string where
  "label_unknown = [CHR 0xEC, CHR 0x95, CHR 0x8C, CHR 0x20, CHR 0xEC, CHR 0x88, CHR 0x98,
                    CHR 0x20, CHR 0xEC, CHR 0x97, CHR 0x86, CHR 0xEC, CHR 0x9D, CHR 0x8C]"

definition emotion_mapping :: "int \<Rightarrow> string option" where
  "emotion_mapping k =
     (if k = 1 then Some label_fear
      else if k = 2 then Some label_surprise
      else if k = 3 then Some label_neutral
      else if k = 4 then Some label_disgust
      else if k = 5 then Some label_anger
      else if k = 6 then Some label_sadness
      else if k = 7 then Some label_happiness
      else None)"

subsection \<open>Errors, stored data, the world\<close>

datatype error =
    OracleError
  | ValueError
  | FileNotFoundError
  | OSError
  | JSONDecodeError
  | AttributeError
  | TypeError
  | KeyError

datatype json =
    JNull
  | JBool bool
  | JInt int
  | JStr string
  | JArr "json list"
  | JObj "(string \<times> json) list"

text \<open>
  What reading one entry of the directory gives: \<open>Unreadable\<close> when \<^verbatim>\<open>open\<close> or the
  decoding fails, \<open>Malformed\<close> when the text is not JSON, the parsed value otherwise.
\<close>

datatype stored = Unreadable | Malformed | Parsed json

text \<open>The keys of the dictionary built by the scan: Python's hashable JSON scalars,
  with \<^verbatim>\<open>True == 1\<close> and \<^verbatim>\<open>False == 0\<close>.\<close>

datatype key = KNone | KNum int | KStr string

text \<open>One value of that dictionary: \<^verbatim>\<open>{"input": ..., "response": ...}\<close>.\<close>

record turn_log =
  log_input :: json
  log_response :: json

type_synonym logdict = "(key \<times> turn_log) list"

datatype instruction = CrisisInstruction | NegativeInstruction | EmpathyInstruction

text \<open>
  The prompts of the source, by the function that builds them and the values spliced
  into them: the response prompt carries the previous logs (no context lines when
  empty), the instruction, the dominant emotion label and the user input; the farewell
  prompt carries the name part.
\<close>

datatype prompt =
    CleanPrompt string
  | SentimentPrompt string
  | WarningPrompt string
  | ResponsePrompt logdict instruction string string
  | FarewellPrompt "string option"

record world =
  logs :: "(string \<times> stored) list option"
  calls :: "prompt list"
  writes :: "(string \<times> json) list"

record env =
  connect :: "error + (prompt \<Rightarrow> error + string)"
  sha256_hexdigest :: "string \<Rightarrow> string"
  now :: string
  int_max_str_digits :: int

subsection \<open>Oracle access\<close>

definition get_openai_client :: "env \<Rightarrow> error + (prompt \<Rightarrow> error + string)" where
  "get_openai_client E = connect E"

text \<open>\<^verbatim>\<open>client.chat.completions.create(...).choices[0].message.content.strip()\<close>\<close>

definition create :: "(prompt \<Rightarrow> error + string) \<Rightarrow> prompt \<Rightarrow> world \<Rightarrow> (error + string) \<times> world" where
  "create client p s =
     (case client p of
        Inl e \<Rightarrow> (Inl e, s\<lparr>calls := calls s @ [p]\<rparr>)
      | Inr content \<Rightarrow> (Inr (strip content), s\<lparr>calls := calls s @ [p]\<rparr>))"

subsection \<open>Classification\<close>

text \<open>
  \<^verbatim>\<open>int(match.group()) if match else None\<close>. The conversion raises \<^verbatim>\<open>ValueError\<close>
  when the run has more digits than the interpreter's limit for integer conversion
  (\<^verbatim>\<open>sys.get_int_max_str_digits()\<close>: 4300 unless configured, 0 for no limit).
\<close>

definition extract_integer :: "env \<Rightarrow> string \<Rightarrow> error + int option" where
  "extract_integer E text =
     (let match = first_digits (code_points text) in
      if match = [] then Inr None
      else if int_max_str_digits E \<noteq> 0 \<and> int_max_str_digits E < int (length match)
        then Inl ValueError
      else Inr (Some (int_of_digits match)))"

definition preprocess_input_with_openai :: "env \<Rightarrow> string \<Rightarrow> world \<Rightarrow> (error + string) \<times> world" where
  "preprocess_input_with_openai E text s =
     (case get_openai_client E of
        Inl e \<Rightarrow> (Inl e, s)
      | Inr client \<Rightarrow> create client (CleanPrompt text) s)"

definition get_sentiment_score :: "env \<Rightarrow> string \<Rightarrow> world \<Rightarrow> (error + int option) \<times> world" where
  "get_sentiment_score E text s =
     (case get_openai_client E of
        Inl e \<Rightarrow> (Inl e, s)
      | Inr client \<Rightarrow>
          (case create client (SentimentPrompt text) s of
             (Inl e, s1) \<Rightarrow> (Inl e, s1)
           | (Inr reply, s1) \<Rightarrow> (extract_integer E reply, s1)))"

definition is_negative_emotion :: "int \<Rightarrow> bool" where
  "is_negative_emotion score = (score \<in> set [1, 4, 5, 6])"

definition is_warning_signal :: "env \<Rightarrow> string \<Rightarrow> world \<Rightarrow> (error + bool) \<times> world" where
  "is_warning_signal E user_input s =
     (case get_openai_client E of
        Inl e \<Rightarrow> (Inl e, s)
      | Inr client \<Rightarrow>
          (case create client (WarningPrompt user_input) s of
             (Inl e, s1) \<Rightarrow> (Inl e, s1)
           | (Inr reply, s1) \<Rightarrow> (Inr (contains ''true'' (lower reply)), s1)))"

subsection \<open>Identity\<close>

text \<open>\<^verbatim>\<open>if username\<close>: neither \<^verbatim>\<open>None\<close> nor the empty string.\<close>

definition truthy :: "string option \<Rightarrow> bool" where
  "truthy username = (case username of None \<Rightarrow> False | Some n \<Rightarrow> n \<noteq> [])"

definition encrypt_name :: "env \<Rightarrow> string \<Rightarrow> string" where
  "encrypt_name E name = sha256_hexdigest E name"

subsection \<open>The log store\<close>

definition jget :: "(string \<times> json) list \<Rightarrow> string \<Rightarrow> json \<Rightarrow> json" where
  "jget items k dflt = (case map_of items k of None \<Rightarrow> dflt | Some v \<Rightarrow> v)"

definition log_interaction ::
  "env \<Rightarrow> string \<Rightarrow> int \<Rightarrow> string \<Rightarrow> string option \<Rightarrow> world \<Rightarrow> (error + unit) \<times> world" where
  "log_interaction E user_input sentiment_score response_text username s =
     (let timestamp = now E in
      case emotion_mapping sentiment_score of
        None \<Rightarrow> (Inl KeyError, s)
      | Some label \<Rightarrow>
          (let log_data = JObj
                 [(''timestamp'', JStr timestamp),
                  (''sentiment_score'', JStr label),
                  (''response'', JStr response_text),
                  (''user_input'', JStr user_input),
                  (''username_hash'',
                     if truthy username then JStr (encrypt_name E (the username)) else JNull)];
               dir = (case logs s of None \<Rightarrow> [] | Some files \<Rightarrow> files);
               filename = timestamp @ ''.json''
           in (Inr (),
               s\<lparr>logs := Some (AList.update filename (Parsed log_data) dir),
                 writes := writes s @ [(filename, log_data)]\<rparr>)))"

fun hash_key :: "json \<Rightarrow> key option" where
  "hash_key JNull = Some KNone"
| "hash_key (JBool b) = Some (KNum (if b then 1 else 0))"
| "hash_key (JInt i) = Some (KNum i)"
| "hash_key (JStr t) = Some (KStr t)"
| "hash_key (JArr xs) = None"
| "hash_key (JObj items) = None"

text \<open>The body of the \<^verbatim>\<open>for\<close> loop of \<^verbatim>\<open>load_previous_logs\<close>, over the sorted names.\<close>

fun scan ::
  "(string \<times> stored) list \<Rightarrow> string \<Rightarrow> int \<Rightarrow> string list \<Rightarrow> logdict \<Rightarrow> error + logdict" where
  "scan files username_hash limit [] logs_acc = Inr logs_acc"
| "scan files username_hash limit (filename # rest) logs_acc =
     (if \<not> endswith ''.json'' filename then scan files username_hash limit rest logs_acc
      else
        (case map_of files filename of
           None \<Rightarrow> Inl FileNotFoundError
         | Some Unreadable \<Rightarrow> Inl OSError
         | Some Malformed \<Rightarrow> Inl JSONDecodeError
         | Some (Parsed (JObj data)) \<Rightarrow>
             (if jget data ''username_hash'' JNull = JStr username_hash then
                (case hash_key (jget data ''timestamp'' (JStr (remove_json filename))) of
                   None \<Rightarrow> Inl TypeError
                 | Some timestamp \<Rightarrow>
                     (let logs_acc' = AList.update timestamp
                            \<lparr>log_input = jget data ''user_input'' (JStr ''''),
                             log_response = jget data ''response'' (JStr '''')\<rparr> logs_acc
                      in if int (length logs_acc') \<ge> limit then Inr logs_acc'
                         else scan files username_hash limit rest logs_acc'))
              else scan files username_hash limit rest logs_acc)
         | Some (Parsed other) \<Rightarrow> Inl AttributeError))"

text \<open>
  \<^verbatim>\<open>sorted(logs.items())\<close>: the keys of a dictionary are pairwise different, so the
  order of the items is the order of the keys; strings compare with strings and numbers
  with numbers, any other comparison raises \<^verbatim>\<open>TypeError\<close>, and a list of fewer than
  two items is not compared at all.
\<close>

fun is_KStr :: "key \<Rightarrow> bool" where
  "is_KStr (KStr t) = True"
| "is_KStr k = False"

fun is_KNum :: "key \<Rightarrow> bool" where
  "is_KNum (KNum i) = True"
| "is_KNum k = False"

fun str_of :: "key \<Rightarrow> string" where
  "str_of (KStr t) = t"
| "str_of k = []"

fun num_of :: "key \<Rightarrow> int" where
  "num_of (KNum i) = i"
| "num_of k = 0"

definition sorted_items :: "logdict \<Rightarrow> error + logdict" where
  "sorted_items d =
     (if length d \<le> 1 then Inr d
      else if list_all (\<lambda>kv. is_KStr (fst kv)) d then Inr (sort_key (\<lambda>kv. str_of (fst kv)) d)
      else if list_all (\<lambda>kv. is_KNum (fst kv)) d then Inr (sort_key (\<lambda>kv. num_of (fst kv)) d)
      else Inl TypeError)"

definition listdir :: "world \<Rightarrow> error + string list" where
  "listdir s = (case logs s of None \<Rightarrow> Inl FileNotFoundError | Some files \<Rightarrow> Inr (remdups (map fst files)))"

definition load_previous_logs :: "env \<Rightarrow> string option \<Rightarrow> int \<Rightarrow> world \<Rightarrow> error + logdict" where
  "load_previous_logs E username limit s =
     (if \<not> truthy username then Inr []
      else
        (let username_hash = encrypt_name E (the username) in
         case listdir s of
           Inl e \<Rightarrow> Inl e
         | Inr names \<Rightarrow>
             (case scan (the (logs s)) username_hash limit (rev (sort names)) [] of
                Inl e \<Rightarrow> Inl e
              | Inr found \<Rightarrow> sorted_items found)))"

subsection \<open>Response synthesis and the pipeline\<close>

definition generate_response ::
  "env \<Rightarrow> int \<Rightarrow> string \<Rightarrow> string option \<Rightarrow> world \<Rightarrow> (error + string) \<times> world" where
  "generate_response E sentiment_score user_input username s =
     (case get_openai_client E of
        Inl e \<Rightarrow> (Inl e, s)
      | Inr client \<Rightarrow>
          (let dominant_emotion =
                 (case emotion_mapping sentiment_score of None \<Rightarrow> label_unknown | Some l \<Rightarrow> l)
           in case load_previous_logs E username 3 s of
                Inl e \<Rightarrow> (Inl e, s)
              | Inr previous_logs \<Rightarrow>
                  (if is_negative_emotion sentiment_score then
                     (case is_warning_signal E user_input s of
                        (Inl e, s1) \<Rightarrow> (Inl e, s1)
                      | (Inr warning, s1) \<Rightarrow>
                          create client
                            (ResponsePrompt previous_logs
                               (if warning then CrisisInstruction else NegativeInstruction)
                               dominant_emotion user_input) s1)
                   else
                     create client
                       (ResponsePrompt previous_logs EmpathyInstruction
                          dominant_emotion user_input) s)))"

definition analyze_user_input :: "env \<Rightarrow> string \<Rightarrow> world \<Rightarrow> (error + int option) \<times> world" where
  "analyze_user_input E user_input s =
     (case preprocess_input_with_openai E user_input s of
        (Inl e, s1) \<Rightarrow> (Inl e, s1)
      | (Inr cleaned_input, s1) \<Rightarrow> get_sentiment_score E cleaned_input s1)"

definition run_pipeline :: "env \<Rightarrow> string \<Rightarrow> string option \<Rightarrow> world \<Rightarrow> (error + string) \<times> world" where
  "run_pipeline E user_input username s =
     (case analyze_user_input E user_input s of
        (Inl e, s1) \<Rightarrow> (Inl e, s1)
      | (Inr score, s1) \<Rightarrow>
          (let sentiment_score = (case score of None \<Rightarrow> 3 | Some n \<Rightarrow> n) in
           case generate_response E sentiment_score user_input username s1 of
             (Inl e, s2) \<Rightarrow> (Inl e, s2)
           | (Inr response, s2) \<Rightarrow>
               (case log_interaction E user_input sentiment_score response username s2 of
                  (Inl e, s3) \<Rightarrow> (Inl e, s3)
                | (Inr u, s3) \<Rightarrow> (Inr response, s3))))"

definition generate_farewell_message :: "env \<Rightarrow> string option \<Rightarrow> world \<Rightarrow> (error + string) \<times> world" where
  "generate_farewell_message E username s =
     (case get_openai_client E of
        Inl e \<Rightarrow> (Inl e, s)
      | Inr client \<Rightarrow>
          create client (FarewellPrompt (if truthy username then username else None)) s)"

subsection \<open>One iteration of the loop of \<^verbatim>\<open>main\<close>\<close>

definition farewell_words :: "string list" where
  "farewell_words =
     [[CHR 0xEA, CHR 0xB7, CHR 0xB8, CHR 0xEB, CHR 0xA7, CHR 0x8C, CHR 0xED, CHR 0x95, CHR 0xA0,
       CHR 0xEA, CHR 0xB2, CHR 0x8C, CHR 0xEC, CHR 0x9A, CHR 0x94],
      [CHR 0xEC, CHR 0x88, CHR 0x98, CHR 0xEA, CHR 0xB3, CHR 0xA0, CHR 0xED, CHR 0x96, CHR 0x88,
       CHR 0xEC, CHR 0x96, CHR 0xB4, CHR 0xEC, CHR 0x9A, CHR 0x94],
      [CHR 0xEA, CHR 0xB3, CHR 0xA0, CHR 0xEB, CHR 0xA7, CHR 0x88, CHR 0xEC, CHR 0x9B, CHR 0x8C,
       CHR 0xEC, CHR 0x9A, CHR 0x94],
      [CHR 0xEC, CHR 0x95, CHR 0x88, CHR 0xEB, CHR 0x85, CHR 0x95],
      [CHR 0xEC, CHR 0xA2, CHR 0x85, CHR 0xEB, CHR 0xA3, CHR 0x8C],
      ''bye'']"

datatype printed = Farewell string | Chatbot string

text \<open>
  \<open>username\<close> is the stripped name typed at the start (possibly empty), \<open>line\<close> the
  line typed in this iteration. A \<open>Farewell\<close> ends the loop.
\<close>

definition main_iteration :: "env \<Rightarrow> string \<Rightarrow> string \<Rightarrow> world \<Rightarrow> (error + printed) \<times> world" where
  "main_iteration E username line s =
     (let user_input = strip line in
      if lower user_input \<in> set farewell_words then
        (case generate_farewell_message E (if username \<noteq> [] then Some username else None) s of
           (Inl e, s1) \<Rightarrow> (Inl e, s1)
         | (Inr farewell, s1) \<Rightarrow> (Inr (Farewell farewell), s1))
      else
        (case run_pipeline E user_input (Some username) s of
           (Inl e, s1) \<Rightarrow> (Inl e, s1)
         | (Inr response, s1) \<Rightarrow> (Inr (Chatbot response), s1)))"

subsection \<open>Notions used to state the properties of the log store\<close>

text \<open>
  A stored file belongs to the user with hash \<open>username_hash\<close> when it parses to a JSON
  object whose \<^verbatim>\<open>username_hash\<close> is that string: the test of the scan.
\<close>

definition belongs_to :: "string \<Rightarrow> (string \<times> stored) list \<Rightarrow> string \<Rightarrow> bool" where
  "belongs_to username_hash files filename =
     (case map_of files filename of
        Some (Parsed (JObj data)) \<Rightarrow> jget data ''username_hash'' JNull = JStr username_hash
      | _ \<Rightarrow> False)"

text \<open>The dictionary item that the scan makes of such a file.\<close>

definition from_file :: "string \<Rightarrow> (string \<times> stored) list \<Rightarrow> string \<Rightarrow> key \<times> turn_log \<Rightarrow> bool" where
  "from_file username_hash files filename kv =
     (case map_of files filename of
        Some (Parsed (JObj data)) \<Rightarrow>
          jget data ''username_hash'' JNull = JStr username_hash \<and>
          hash_key (jget data ''timestamp'' (JStr (remove_json filename))) = Some (fst kv) \<and>
          snd kv = \<lparr>log_input = jget data ''user_input'' (JStr ''''),
                    log_response = jget data ''response'' (JStr '''')\<rparr>
      | _ \<Rightarrow> False)"

text \<open>
  A directory whose \<^verbatim>\<open>.json\<close> files are as \<open>log_interaction\<close> leaves them: each
  is a JSON object named after its own \<^verbatim>\<open>timestamp\<close> string. Other entries are free.
\<close>

definition written_by_append :: "(string \<times> stored) list \<Rightarrow> bool" where
  "written_by_append files =
     list_all (\<lambda>(name, f).
        if endswith ''.json'' name then
          (case f of
             Parsed (JObj data) \<Rightarrow>
               (case map_of data ''timestamp'' of Some (JStr t) \<Rightarrow> name = t @ ''.json'' | _ \<Rightarrow> False)
           | _ \<Rightarrow> False)
        else True) files"

text \<open>Python's \<^verbatim>\<open><\<close> on two keys, where it is defined.\<close>

fun key_less :: "key \<Rightarrow> key \<Rightarrow> bool" where
  "key_less (KStr a) (KStr b) = (a < b)"
| "key_less (KNum a) (KNum b) = (a < b)"
| "key_less a b = False"

subsection \<open>Example environments\<close>

text \<open>
  A completion service that echoes the text to clean, answers the classification request
  with \<open>category\<close> and the risk question with \<open>risk\<close>, and has fixed replies otherwise;
  a turn environment around it; and the world before the first turn (no \<^verbatim>\<open>logs\<close>
  directory yet).
\<close>

definition scripted :: "string \<Rightarrow> string \<Rightarrow> prompt \<Rightarrow> error + string" where
  "scripted category risk p =
     (case p of
        CleanPrompt t \<Rightarrow> Inr t
      | SentimentPrompt t \<Rightarrow> Inr category
      | WarningPrompt t \<Rightarrow> Inr risk
      | ResponsePrompt c i l u \<Rightarrow> Inr ''I hear you.''
      | FarewellPrompt n \<Rightarrow> Inr ''Take care.'')"

definition example_env :: "string \<Rightarrow> string \<Rightarrow> string \<Rightarrow> env" where
  "example_env category risk t =
     \<lparr>connect = Inr (scripted category risk), sha256_hexdigest = (\<lambda>n. ''sha256:'' @ n), now = t,
      int_max_str_digits = 4300\<rparr>"

definition fresh :: world where
  "fresh = \<lparr>logs = None, calls = [], writes = []\<rparr>"

text \<open>
  The file that a turn of the user \<^verbatim>\<open>kim\<close> leaves at time \<open>t\<close> in such an
  environment, when the input was \<open>text\<close> and the code 7.
\<close>

definition kim_turn :: "string \<Rightarrow> string \<Rightarrow> string \<times> stored" where
  "kim_turn t text =
     (t @ ''.json'',
      Parsed (JObj [(''timestamp'', JStr t),
                    (''sentiment_score'', JStr label_happiness),
                    (''response'', JStr ''I hear you.''),
                    (''user_input'', JStr text),
                    (''username_hash'', JStr ''sha256:kim'')]))"

text \<open>The inputs of two scenarios: "I am very scared", and the reply "I don't know".\<close>

definition very_scared :: string where
  "very_scared =
     [CHR 0xEB, CHR 0x82, CHR 0x98, CHR 0xEB, CHR 0x8A, CHR 0x94, CHR 0x20, CHR 0xEB, CHR 0x84,
      CHR 0x88, CHR 0xEB, CHR 0xAC, CHR 0xB4, CHR 0x20, CHR 0xEB, CHR 0xAC, CHR 0xB4, CHR 0xEC,
      CHR 0x84, CHR 0x9C, CHR 0xEC, CHR 0x9B, CHR 0x8C, CHR 0xEC, CHR 0x9A, CHR 0x94]"

definition dont_know :: string where
  "dont_know =
     [CHR 0xEB, CHR 0xAA, CHR 0xA8, CHR 0xEB, CHR 0xA5, CHR 0xB4, CHR 0xEA, CHR 0xB2, CHR 0xA0,
      CHR 0xEC, CHR 0x96, CHR 0xB4, CHR 0xEC, CHR 0x9A, CHR 0x94]"

section \<open>Properties\<close>

subsection \<open>Oracle calls and text helpers\<close>

lemma create_effect:
  "create client p s = (r, s') \<Longrightarrow>
     calls s' = calls s @ [p] \<and> logs s' = logs s \<and> writes s' = writes s"
  by (auto simp: create_def split: sum.splits)

lemma create_result:
  "fst (create client p s) = (case client p of Inl e \<Rightarrow> Inl e | Inr content \<Rightarrow> Inr (strip content))"
  by (simp add: create_def split: sum.splits)

lemma startswith_iff: "startswith p t \<longleftrightarrow> (\<exists>post. t = p @ post)"
  by (induction p t rule: startswith.induct) auto

lemma contains_iff: "contains p t \<longleftrightarrow> (\<exists>pre post. t = pre @ p @ post)"
proof (induction t)
  case Nil
  show ?case by auto
next
  case (Cons c cs)
  show ?case
  proof
    assume "contains p (c # cs)"
    then consider "startswith p (c # cs)" | "contains p cs" by auto
    then show "\<exists>pre post. c # cs = pre @ p @ post"
    proof cases
      case 1
      then obtain post where "c # cs = p @ post" by (auto simp: startswith_iff)
      then have "c # cs = [] @ p @ post" by simp
      then show ?thesis by blast
    next
      case 2
      then obtain pre post where "cs = pre @ p @ post" using Cons.IH by auto
      then have "c # cs = (c # pre) @ p @ post" by simp
      then show ?thesis by blast
    qed
  next
    assume "\<exists>pre post. c # cs = pre @ p @ post"
    then obtain pre post where e: "c # cs = pre @ p @ post" by auto
    show "contains p (c # cs)"
    proof (cases pre)
      case Nil
      with e have "startswith p (c # cs)" by (auto simp: startswith_iff)
      then show ?thesis by simp
    next
      case (Cons a pre')
      with e have "cs = pre' @ p @ post" by simp
      then have "contains p cs" using Cons.IH by auto
      then show ?thesis by simp
    qed
  qed
qed

lemma startswith_snoc: "c \<notin> set p \<Longrightarrow> startswith p (u @ [c]) = startswith p u"
proof (induction p u rule: startswith.induct)
  case (1 t)
  show ?case by simp
next
  case (2 p ps)
  then show ?case by auto
next
  case (3 p ps a cs)
  then show ?case by simp
qed

lemma contains_snoc:
  assumes "c \<notin> set p" and "p \<noteq> []"
  shows "contains p (t @ [c]) = contains p t"
proof (induction t)
  case Nil
  have "startswith p ([] @ [c]) = startswith p []" using assms(1) by (rule startswith_snoc)
  moreover have "\<not> startswith p []" using assms(2) by (cases p) auto
  ultimately show ?case using assms(2) by simp
next
  case (Cons a t)
  have "startswith p ((a # t) @ [c]) = startswith p (a # t)" using assms(1) by (rule startswith_snoc)
  with Cons show ?case by simp
qed

lemma contains_drop_suffix:
  assumes "p \<noteq> []"
  shows "\<forall>c\<in>set b. c \<notin> set p \<Longrightarrow> contains p (t @ b) = contains p t"
proof (induction b rule: rev_induct)
  case Nil
  show ?case by simp
next
  case (snoc x xs)
  have "contains p ((t @ xs) @ [x]) = contains p (t @ xs)"
    using snoc.prems assms by (intro contains_snoc) auto
  with snoc show ?case by simp
qed

lemma contains_drop_prefix:
  assumes "p \<noteq> []"
  shows "\<forall>c\<in>set a. c \<notin> set p \<Longrightarrow> contains p (a @ t) = contains p t"
proof (induction a)
  case Nil
  show ?case by simp
next
  case (Cons x xs)
  have "\<not> startswith p (x # xs @ t)" using Cons.prems assms by (cases p) auto
  with Cons show ?case by simp
qed

lemma strip_leading_decomp:
  "\<exists>parts. set parts \<subseteq> set ws \<and> t = concat parts @ strip_leading ws t"
proof (induction ws t rule: strip_leading.induct)
  case (1 ws)
  have "set [] \<subseteq> set ws \<and> [] = concat [] @ strip_leading ws []" by simp
  then show ?case by blast
next
  case (2 ws c cs)
  show ?case
  proof (cases "find (\<lambda>w. w \<noteq> [] \<and> startswith w (c # cs)) ws")
    case None
    then have "set [] \<subseteq> set ws \<and> c # cs = concat [] @ strip_leading ws (c # cs)" by simp
    then show ?thesis by blast
  next
    case (Some w)
    then obtain i where i: "i < length ws" "startswith (ws ! i) (c # cs)" "w = ws ! i"
      unfolding find_Some_iff by blast
    then have w: "w \<in> set ws" by simp
    from i obtain post where post: "c # cs = w @ post" by (auto simp: startswith_iff)
    then have d: "drop (length w) (c # cs) = post" by simp
    from "2.IH" [OF Some] d obtain parts where
      p: "set parts \<subseteq> set ws" "post = concat parts @ strip_leading ws post" by auto
    have "strip_leading ws (c # cs) = strip_leading ws post" using Some d by simp
    with p post w have "set (w # parts) \<subseteq> set ws \<and>
        c # cs = concat (w # parts) @ strip_leading ws (c # cs)" by simp
    then show ?thesis by blast
  qed
qed

lemma strip_decomp:
  "\<exists>pa pb. set pa \<subseteq> set whitespace \<and> set pb \<subseteq> set whitespace \<and>
     t = concat pa @ strip t @ concat pb"
proof -
  obtain pa where pa: "set pa \<subseteq> set whitespace" "t = concat pa @ lstrip t"
    unfolding lstrip_def using strip_leading_decomp by blast
  obtain ps where ps: "set ps \<subseteq> set (map rev whitespace)"
    "rev (lstrip t) = concat ps @ strip_leading (map rev whitespace) (rev (lstrip t))"
    using strip_leading_decomp by blast
  let ?pb = "map rev (rev ps)"
  have "rev (rev (lstrip t)) =
        rev (concat ps @ strip_leading (map rev whitespace) (rev (lstrip t)))"
    using ps(2) by simp
  then have "lstrip t = rstrip (lstrip t) @ concat ?pb"
    by (simp only: rev_rev_ident rev_append rev_concat rstrip_def)
  then have "lstrip t = strip t @ concat ?pb" by (simp only: strip_def)
  with pa(2) have "t = concat pa @ strip t @ concat ?pb" by simp
  moreover have "set ?pb \<subseteq> set whitespace" using ps(1) by auto
  ultimately show ?thesis using pa(1) by blast
qed

lemma whitespace_bytes_lower:
  "\<forall>c\<in>set (concat whitespace). lower_char c \<notin> set ''true''"
  by code_simp

lemma lower_spaces_not_in_true:
  assumes "set parts \<subseteq> set whitespace"
  shows "\<forall>c\<in>set (lower (concat parts)). c \<notin> set ''true''"
proof
  fix c assume "c \<in> set (lower (concat parts))"
  then obtain d where d: "d \<in> set (concat parts)" "c = lower_char d" by (auto simp: lower_def)
  with assms have "d \<in> set (concat whitespace)" by auto
  with whitespace_bytes_lower d(2) show "c \<notin> set ''true''" by blast
qed

lemma contains_true_strip: "contains ''true'' (lower (strip t)) = contains ''true'' (lower t)"
proof -
  obtain pa pb where pa: "set pa \<subseteq> set whitespace" and pb: "set pb \<subseteq> set whitespace"
    and t: "t = concat pa @ strip t @ concat pb"
    using strip_decomp by blast
  have la: "\<forall>c\<in>set (lower (concat pa)). c \<notin> set ''true''"
    using pa by (rule lower_spaces_not_in_true)
  have lb: "\<forall>c\<in>set (lower (concat pb)). c \<notin> set ''true''"
    using pb by (rule lower_spaces_not_in_true)
  have "lower t = lower (concat pa) @ (lower (strip t) @ lower (concat pb))"
    by (subst t) (simp add: lower_def)
  then have "contains ''true'' (lower t) =
             contains ''true'' (lower (strip t) @ lower (concat pb))"
    using contains_drop_prefix [OF _ la] by simp
  also have "\<dots> = contains ''true'' (lower (strip t))"
    using contains_drop_suffix [OF _ lb] by simp
  finally show ?thesis by simp
qed

subsection \<open>What each stage leaves behind\<close>

lemma preprocess_frame:
  "preprocess_input_with_openai E text s = (r, s') \<Longrightarrow> logs s' = logs s \<and> writes s' = writes s"
  by (auto simp: preprocess_input_with_openai_def create_def split: sum.splits)

lemma get_sentiment_score_frame:
  "get_sentiment_score E text s = (r, s') \<Longrightarrow> logs s' = logs s \<and> writes s' = writes s"
  by (auto simp: get_sentiment_score_def create_def split: sum.splits)

lemma analyze_user_input_frame:
  assumes "analyze_user_input E user_input s = (r, s')"
  shows "logs s' = logs s \<and> writes s' = writes s"
proof (cases "preprocess_input_with_openai E user_input s")
  case (Pair r1 s1)
  then have f1: "logs s1 = logs s \<and> writes s1 = writes s" by (rule preprocess_frame)
  show ?thesis
  proof (cases r1)
    case (Inl e)
    with Pair assms have "s' = s1" by (simp add: analyze_user_input_def)
    with f1 show ?thesis by simp
  next
    case (Inr cleaned)
    with Pair assms have "get_sentiment_score E cleaned s1 = (r, s')"
      by (simp add: analyze_user_input_def)
    then have "logs s' = logs s1 \<and> writes s' = writes s1" by (rule get_sentiment_score_frame)
    with f1 show ?thesis by simp
  qed
qed

lemma is_warning_signal_frame:
  "is_warning_signal E user_input s = (r, s') \<Longrightarrow> logs s' = logs s \<and> writes s' = writes s"
  by (auto simp: is_warning_signal_def create_def split: sum.splits)

lemma is_warning_signal_calls:
  "connect E = Inr client \<Longrightarrow> is_warning_signal E user_input s = (r, s') \<Longrightarrow>
     calls s' = calls s @ [WarningPrompt user_input]"
  by (auto simp: is_warning_signal_def get_openai_client_def create_def split: sum.splits)

lemma load_previous_logs_cong:
  "logs s1 = logs s2 \<Longrightarrow> load_previous_logs E username limit s1 = load_previous_logs E username limit s2"
  unfolding load_previous_logs_def listdir_def by (cases "logs s2") simp_all

lemma generate_response_frame:
  assumes "generate_response E score user_input username s = (r, s')"
  shows "logs s' = logs s \<and> writes s' = writes s"
proof (cases "get_openai_client E")
  case (Inl e)
  with assms show ?thesis by (simp add: generate_response_def)
next
  case client: (Inr client)
  show ?thesis
  proof (cases "load_previous_logs E username 3 s")
    case (Inl e)
    with assms client show ?thesis by (simp add: generate_response_def)
  next
    case ctx: (Inr ctx)
    show ?thesis
    proof (cases "is_negative_emotion score")
      case False
      with assms client ctx show ?thesis
        by (auto simp: generate_response_def dest: create_effect)
    next
      case True
      obtain w s1 where w: "is_warning_signal E user_input s = (w, s1)" by (cases "is_warning_signal E user_input s")
      then have f1: "logs s1 = logs s \<and> writes s1 = writes s" by (rule is_warning_signal_frame)
      show ?thesis
      proof (cases w)
        case (Inl e)
        with assms client ctx True w have "s' = s1" by (simp add: generate_response_def)
        with f1 show ?thesis by simp
      next
        case (Inr warning)
        with assms client ctx True w f1 show ?thesis
          by (auto simp: generate_response_def dest: create_effect)
      qed
    qed
  qed
qed

lemma log_interaction_Inl:
  "log_interaction E user_input score response_text username s = (Inl e, s') \<Longrightarrow> s' = s"
  by (auto simp: log_interaction_def Let_def split: option.splits)

lemma log_interaction_Inr:
  assumes "log_interaction E user_input score response_text username s = (Inr u, s')"
  shows "\<exists>items. writes s' = writes s @ [(now E @ ''.json'', JObj items)] \<and>
           logs s' = Some (AList.update (now E @ ''.json'') (Parsed (JObj items))
                             (case logs s of None \<Rightarrow> [] | Some files \<Rightarrow> files)) \<and>
           calls s' = calls s \<and>
           map_of items ''timestamp'' = Some (JStr (now E)) \<and>
           map_of items ''sentiment_score'' = map_option JStr (emotion_mapping score) \<and>
           emotion_mapping score \<noteq> None \<and>
           map_of items ''response'' = Some (JStr response_text) \<and>
           map_of items ''user_input'' = Some (JStr user_input) \<and>
           map_of items ''username_hash'' =
             Some (if truthy username then JStr (encrypt_name E (the username)) else JNull)"
  using assms by (auto simp: log_interaction_def Let_def split: option.splits)

lemma generate_response_Inr:
  assumes "generate_response E score user_input username s = (Inr response, s')"
  shows "\<exists>client ctx ins label reply.
           connect E = Inr client \<and>
           calls s' \<noteq> [] \<and>
           last (calls s') = ResponsePrompt ctx ins label user_input \<and>
           client (ResponsePrompt ctx ins label user_input) = Inr reply \<and>
           response = strip reply"
proof -
  from assms obtain client where client: "connect E = Inr client"
    by (cases "connect E") (auto simp: generate_response_def get_openai_client_def)
  from assms client obtain ctx where ctx: "load_previous_logs E username 3 s = Inr ctx"
    by (cases "load_previous_logs E username 3 s")
       (auto simp: generate_response_def get_openai_client_def)
  from assms client ctx obtain p s1 where p: "create client p s1 = (Inr response, s')"
    and pp: "\<exists>i l. p = ResponsePrompt ctx i l user_input"
    by (auto simp: generate_response_def get_openai_client_def Let_def
          split: if_splits prod.splits sum.splits)
  from p have "calls s' = calls s1 @ [p]" by (auto dest: create_effect)
  moreover from p have "\<exists>reply. client p = Inr reply \<and> response = strip reply"
    by (auto simp: create_def split: sum.splits)
  ultimately show ?thesis using client pp by auto
qed

subsection \<open>The classification reply\<close>

text \<open>Decoding a text in two parts.\<close>

lemma utf8_dec_append_lead:
  assumes "ys = [] \<or> \<not> (0x80 \<le> (of_char (hd ys) :: int) \<and> (of_char (hd ys) :: int) < 0xC0)"
  shows "utf8_dec v k (xs @ ys) = utf8_dec v k xs @ utf8_dec 0 0 ys"
proof (induction xs arbitrary: v k)
  case Nil
  show ?case
  proof (cases ys)
    case Nil
    then show ?thesis by simp
  next
    case (Cons b bs)
    with assms show ?thesis by (auto simp: Let_def)
  qed
next
  case (Cons x xs)
  then show ?case by (simp add: Let_def)
qed

lemma whitespace_complete:
  assumes "w \<in> set whitespace"
  shows "utf8_dec 0 0 (w @ ys) = utf8_dec 0 0 w @ utf8_dec 0 0 ys"
  using assms unfolding whitespace_def
  by (simp, elim disjE) (simp_all add: Let_def)

lemma whitespace_concat_complete:
  "set parts \<subseteq> set whitespace \<Longrightarrow>
     utf8_dec 0 0 (concat parts @ ys) = utf8_dec 0 0 (concat parts) @ utf8_dec 0 0 ys"
proof (induction parts arbitrary: ys)
  case Nil
  show ?case by simp
next
  case (Cons w ws)
  then have w: "w \<in> set whitespace" and ws: "set ws \<subseteq> set whitespace" by auto
  have "utf8_dec 0 0 (concat (w # ws) @ ys) = utf8_dec 0 0 (w @ (concat ws @ ys))" by simp
  also have "\<dots> = utf8_dec 0 0 w @ utf8_dec 0 0 (concat ws @ ys)"
    using w by (rule whitespace_complete)
  also have "\<dots> = utf8_dec 0 0 w @ utf8_dec 0 0 (concat ws) @ utf8_dec 0 0 ys"
    using Cons.IH [OF ws] by simp
  also have "\<dots> = utf8_dec 0 0 (w @ concat ws) @ utf8_dec 0 0 ys"
    using whitespace_complete [OF w, of "concat ws"] by simp
  finally show ?case by simp
qed

lemma whitespace_no_digit:
  "\<forall>w\<in>set whitespace. \<forall>c\<in>set (utf8_dec 0 0 w). \<not> is_digit c"
  by code_simp

lemma whitespace_concat_no_digit:
  "set parts \<subseteq> set whitespace \<Longrightarrow> \<forall>c\<in>set (utf8_dec 0 0 (concat parts)). \<not> is_digit c"
proof (induction parts)
  case Nil
  show ?case by simp
next
  case (Cons w ws)
  then have w: "w \<in> set whitespace" and ws: "set ws \<subseteq> set whitespace" by auto
  have "utf8_dec 0 0 (concat (w # ws)) = utf8_dec 0 0 w @ utf8_dec 0 0 (concat ws)"
    using whitespace_complete [OF w, of "concat ws"] by simp
  with Cons.IH [OF ws] whitespace_no_digit w show ?case by auto
qed

lemma whitespace_lead:
  "\<forall>w\<in>set whitespace. w \<noteq> [] \<and> \<not> (0x80 \<le> (of_char (hd w) :: int) \<and> (of_char (hd w) :: int) < 0xC0)"
  by code_simp

lemma whitespace_concat_lead:
  assumes "set parts \<subseteq> set whitespace"
  shows "concat parts = [] \<or>
         \<not> (0x80 \<le> (of_char (hd (concat parts)) :: int) \<and> (of_char (hd (concat parts)) :: int) < 0xC0)"
proof (cases parts)
  case Nil
  then show ?thesis by simp
next
  case (Cons w ws)
  with assms have "w \<in> set whitespace" by simp
  with whitespace_lead have "w \<noteq> [] \<and>
     \<not> (0x80 \<le> (of_char (hd w) :: int) \<and> (of_char (hd w) :: int) < 0xC0)" by blast
  with Cons show ?thesis by simp
qed

lemma code_points_strip:
  "\<exists>pre suf. code_points t = pre @ code_points (strip t) @ suf \<and>
     (\<forall>c\<in>set pre. \<not> is_digit c) \<and> (\<forall>c\<in>set suf. \<not> is_digit c)"
proof -
  obtain pa pb where pa: "set pa \<subseteq> set whitespace" and pb: "set pb \<subseteq> set whitespace"
    and t: "t = concat pa @ strip t @ concat pb"
    using strip_decomp by blast
  have "code_points t = utf8_dec 0 0 (concat pa @ (strip t @ concat pb))"
    unfolding code_points_def using t by simp
  also have "\<dots> = utf8_dec 0 0 (concat pa) @ utf8_dec 0 0 (strip t @ concat pb)"
    using pa by (rule whitespace_concat_complete)
  also have "utf8_dec 0 0 (strip t @ concat pb) =
             utf8_dec 0 0 (strip t) @ utf8_dec 0 0 (concat pb)"
    using whitespace_concat_lead [OF pb] by (rule utf8_dec_append_lead)
  finally have "code_points t =
      utf8_dec 0 0 (concat pa) @ code_points (strip t) @ utf8_dec 0 0 (concat pb)"
    by (simp add: code_points_def)
  with whitespace_concat_no_digit [OF pa] whitespace_concat_no_digit [OF pb]
  show ?thesis by blast
qed

text \<open>The first run of digits.\<close>

lemma first_digits_prefix:
  "\<forall>c\<in>set pre. \<not> is_digit c \<Longrightarrow> first_digits (pre @ cs) = first_digits cs"
  by (induction pre) (simp_all add: first_digits_def)

lemma takeWhile_digit_snoc:
  "\<not> is_digit c \<Longrightarrow> takeWhile is_digit (cs @ [c]) = takeWhile is_digit cs"
  by (induction cs) auto

lemma first_digits_snoc:
  "\<not> is_digit c \<Longrightarrow> first_digits (cs @ [c]) = first_digits cs"
proof (induction cs)
  case Nil
  then show ?case by (simp add: first_digits_def)
next
  case (Cons x xs)
  show ?case
  proof (cases "is_digit x")
    case True
    with Cons.prems show ?thesis by (simp add: first_digits_def takeWhile_digit_snoc)
  next
    case False
    with Cons show ?thesis by (simp add: first_digits_def)
  qed
qed

lemma first_digits_suffix:
  "\<forall>c\<in>set suf. \<not> is_digit c \<Longrightarrow> first_digits (cs @ suf) = first_digits cs"
proof (induction suf rule: rev_induct)
  case Nil
  show ?case by simp
next
  case (snoc x xs)
  then have "first_digits ((cs @ xs) @ [x]) = first_digits (cs @ xs)"
    by (intro first_digits_snoc) simp
  with snoc show ?case by simp
qed

lemma first_digits_strip: "first_digits (code_points (strip t)) = first_digits (code_points t)"
proof -
  obtain pre suf where "code_points t = pre @ code_points (strip t) @ suf"
    and "\<forall>c\<in>set pre. \<not> is_digit c" and "\<forall>c\<in>set suf. \<not> is_digit c"
    using code_points_strip by blast
  then show ?thesis by (simp add: first_digits_prefix first_digits_suffix)
qed

lemma extract_integer_strip: "extract_integer E (strip t) = extract_integer E t"
  by (simp add: extract_integer_def first_digits_strip)

lemma first_digits_Nil: "(first_digits cs = []) = (\<forall>c\<in>set cs. \<not> is_digit c)"
proof (cases "dropWhile (\<lambda>c. \<not> is_digit c) cs")
  case Nil
  have "first_digits cs = []" unfolding first_digits_def Nil by simp
  moreover from Nil have "\<forall>c\<in>set cs. \<not> is_digit c" by (simp only: dropWhile_eq_Nil_conv)
  ultimately show ?thesis by simp
next
  case (Cons d ds)
  have "is_digit d" using Cons hd_dropWhile [of "\<lambda>c. \<not> is_digit c" cs] by auto
  then have "first_digits cs \<noteq> []" unfolding first_digits_def Cons by simp
  moreover have "\<not> (\<forall>c\<in>set cs. \<not> is_digit c)"
  proof
    assume "\<forall>c\<in>set cs. \<not> is_digit c"
    then have "dropWhile (\<lambda>c. \<not> is_digit c) cs = []" by (simp only: dropWhile_eq_Nil_conv)
    with Cons show False by simp
  qed
  ultimately show ?thesis by blast
qed

lemma first_digits_run:
  "\<exists>pre post. cs = pre @ first_digits cs @ post \<and> (\<forall>c\<in>set pre. \<not> is_digit c) \<and>
     (\<forall>c\<in>set (first_digits cs). is_digit c) \<and> (post = [] \<or> \<not> is_digit (hd post))"
proof -
  let ?pre = "takeWhile (\<lambda>c. \<not> is_digit c) cs"
  let ?rest = "dropWhile (\<lambda>c. \<not> is_digit c) cs"
  let ?post = "dropWhile is_digit ?rest"
  have "cs = ?pre @ first_digits cs @ ?post" by (simp add: first_digits_def)
  moreover have "\<forall>c\<in>set ?pre. \<not> is_digit c" by (auto dest: set_takeWhileD)
  moreover have "\<forall>c\<in>set (first_digits cs). is_digit c"
    by (auto simp: first_digits_def dest: set_takeWhileD)
  moreover have "?post = [] \<or> \<not> is_digit (hd ?post)"
    using hd_dropWhile [of is_digit ?rest] by blast
  ultimately show ?thesis by blast
qed

lemma analyze_user_input_replies:
  assumes "connect E = Inr client"
    and "client (CleanPrompt user_input) = Inr cleaned"
    and "client (SentimentPrompt (strip cleaned)) = Inr reply"
  shows "analyze_user_input E user_input s =
           (extract_integer E reply,
            s\<lparr>calls := calls s @ [CleanPrompt user_input, SentimentPrompt (strip cleaned)]\<rparr>)"
  using assms
  by (simp add: analyze_user_input_def preprocess_input_with_openai_def get_sentiment_score_def
      get_openai_client_def create_def extract_integer_strip)

text \<open>
  A reply that is the full-width digit one (U+FF11) is classified as 1: the risk question
  is asked and the response is synthesised for fear.
\<close>

lemma fullwidth_digit_reply:
  "calls (snd (run_pipeline
                 (example_env [CHR 0xEF, CHR 0xBC, CHR 0x91] ''false'' ''20240101_000000'')
                 ''hi'' None fresh)) =
     [CleanPrompt ''hi'', SentimentPrompt ''hi'', WarningPrompt ''hi'',
      ResponsePrompt [] NegativeInstruction label_fear ''hi'']"
  by code_simp

lemma strip_ideographic_space:
  "strip ([CHR 0xE3, CHR 0x80, CHR 0x80] @ '' a b '' @ [CHR 0xC2, CHR 0xA0, CHR 0x0A]) = ''a b''"
  by code_simp

text \<open>
  C5 (as amended). The classification is decided by the first run of decimal digits of
  the oracle's raw reply: it is absent exactly when the reply has no digit, it is the
  value of that run when the run has no more digits than the interpreter's limit for
  integer conversion, and a longer run raises \<open>ValueError\<close>. When the reply has no
  digit the orchestrator goes on with the neutral code 3: the classification prompt was
  sent once, no risk question is asked, the response is synthesised for the neutral label
  and the record is written with that label.
\<close>

theorem classification_fallback:
  assumes "connect E = Inr client"
    and "client (CleanPrompt user_input) = Inr cleaned"
    and "client (SentimentPrompt (strip cleaned)) = Inr reply"
    and "load_previous_logs E username 3 s = Inr ctx"
    and "client (ResponsePrompt ctx EmpathyInstruction label_neutral user_input) = Inr answer"
  shows "fst (analyze_user_input E user_input s) = extract_integer E reply \<and>
         ((extract_integer E reply = Inr None) = (\<forall>c\<in>set (code_points reply). \<not> is_digit c)) \<and>
         ((\<exists>c\<in>set (code_points reply). is_digit c) \<longrightarrow>
            (\<exists>pre run post. code_points reply = pre @ run @ post \<and>
               (\<forall>c\<in>set pre. \<not> is_digit c) \<and> run \<noteq> [] \<and> (\<forall>c\<in>set run. is_digit c) \<and>
               (post = [] \<or> \<not> is_digit (hd post)) \<and>
               extract_integer E reply =
                 (if int_max_str_digits E \<noteq> 0 \<and> int_max_str_digits E < int (length run)
                  then Inl ValueError else Inr (Some (int_of_digits run))))) \<and>
         ((\<forall>c\<in>set (code_points reply). \<not> is_digit c) \<longrightarrow>
            run_pipeline E user_input username s =
              (Inr (strip answer),
               s\<lparr>calls := calls s @
                    [CleanPrompt user_input, SentimentPrompt (strip cleaned),
                     ResponsePrompt ctx EmpathyInstruction label_neutral user_input],
                 logs := Some (AList.update (now E @ ''.json'')
                    (Parsed (JObj
                       [(''timestamp'', JStr (now E)),
                        (''sentiment_score'', JStr label_neutral),
                        (''response'', JStr (strip answer)),
                        (''user_input'', JStr user_input),
                        (''username_hash'',
                           if truthy username then JStr (encrypt_name E (the username)) else JNull)]))
                    (case logs s of None \<Rightarrow> [] | Some files \<Rightarrow> files)),
                 writes := writes s @
                    [(now E @ ''.json'',
                      JObj
                       [(''timestamp'', JStr (now E)),
                        (''sentiment_score'', JStr label_neutral),
                        (''response'', JStr (strip answer)),
                        (''user_input'', JStr user_input),
                        (''username_hash'',
                           if truthy username then JStr (encrypt_name E (the username)) else JNull)])]\<rparr>))"
proof (intro conjI impI)
  show "fst (analyze_user_input E user_input s) = extract_integer E reply"
    using analyze_user_input_replies [OF assms(1-3)] by simp
next
  show "(extract_integer E reply = Inr None) = (\<forall>c\<in>set (code_points reply). \<not> is_digit c)"
  proof -
    have "(extract_integer E reply = Inr None) = (first_digits (code_points reply) = [])"
      by (simp add: extract_integer_def Let_def)
    then show ?thesis by (simp only: first_digits_Nil)
  qed
next
  assume "\<exists>c\<in>set (code_points reply). is_digit c"
  then have ne: "first_digits (code_points reply) \<noteq> []" by (simp add: first_digits_Nil)
  from first_digits_run [of "code_points reply"] obtain pre post where
    d: "code_points reply = pre @ first_digits (code_points reply) @ post"
       "\<forall>c\<in>set pre. \<not> is_digit c" "\<forall>c\<in>set (first_digits (code_points reply)). is_digit c"
       "post = [] \<or> \<not> is_digit (hd post)"
    by blast
  have "extract_integer E reply =
          (if int_max_str_digits E \<noteq> 0 \<and>
              int_max_str_digits E < int (length (first_digits (code_points reply)))
           then Inl ValueError else Inr (Some (int_of_digits (first_digits (code_points reply)))))"
    using ne by (simp add: extract_integer_def Let_def)
  with d ne show "\<exists>pre run post. code_points reply = pre @ run @ post \<and>
               (\<forall>c\<in>set pre. \<not> is_digit c) \<and> run \<noteq> [] \<and> (\<forall>c\<in>set run. is_digit c) \<and>
               (post = [] \<or> \<not> is_digit (hd post)) \<and>
               extract_integer E reply =
                 (if int_max_str_digits E \<noteq> 0 \<and> int_max_str_digits E < int (length run)
                  then Inl ValueError else Inr (Some (int_of_digits run)))"
    by blast
next
  assume "\<forall>c\<in>set (code_points reply). \<not> is_digit c"
  then have "first_digits (code_points reply) = []" by (simp only: first_digits_Nil)
  then have none: "extract_integer E reply = Inr None" by (simp add: extract_integer_def)
  let ?s1 = "s\<lparr>calls := calls s @ [CleanPrompt user_input, SentimentPrompt (strip cleaned)]\<rparr>"
  have a: "analyze_user_input E user_input s = (Inr None, ?s1)"
    using analyze_user_input_replies [OF assms(1-3)] none by simp
  have "load_previous_logs E username 3 ?s1 = load_previous_logs E username 3 s"
    by (rule load_previous_logs_cong) simp
  with assms(4) have ctx: "load_previous_logs E username 3 ?s1 = Inr ctx" by simp
  have g: "generate_response E 3 user_input username ?s1 =
          (Inr (strip answer),
           ?s1\<lparr>calls := calls ?s1 @ [ResponsePrompt ctx EmpathyInstruction label_neutral user_input]\<rparr>)"
    using assms(1,5) ctx
    by (simp add: generate_response_def get_openai_client_def is_negative_emotion_def
        emotion_mapping_def create_def)
  show "run_pipeline E user_input username s =
              (Inr (strip answer),
               s\<lparr>calls := calls s @
                    [CleanPrompt user_input, SentimentPrompt (strip cleaned),
                     ResponsePrompt ctx EmpathyInstruction label_neutral user_input],
                 logs := Some (AList.update (now E @ ''.json'')
                    (Parsed (JObj
                       [(''timestamp'', JStr (now E)),
                        (''sentiment_score'', JStr label_neutral),
                        (''response'', JStr (strip answer)),
                        (''user_input'', JStr user_input),
                        (''username_hash'',
                           if truthy username then JStr (encrypt_name E (the username)) else JNull)]))
                    (case logs s of None \<Rightarrow> [] | Some files \<Rightarrow> files)),
                 writes := writes s @
                    [(now E @ ''.json'',
                      JObj
                       [(''timestamp'', JStr (now E)),
                        (''sentiment_score'', JStr label_neutral),
                        (''response'', JStr (strip answer)),
                        (''user_input'', JStr user_input),
                        (''username_hash'',
                           if truthy username then JStr (encrypt_name E (the username)) else JNull)])]\<rparr>)"
    unfolding run_pipeline_def a
    by (simp add: g log_interaction_def emotion_mapping_def Let_def)
qed

theorem classification_fallback_witness:
  "run_pipeline (example_env dont_know ''false'' ''20240101_000000'') ''hi'' None fresh =
     (Inr ''I hear you.'',
      \<lparr>logs = Some [(''20240101_000000.json'',
                 Parsed (JObj [(''timestamp'', JStr ''20240101_000000''),
                               (''sentiment_score'', JStr label_neutral),
                               (''response'', JStr ''I hear you.''),
                               (''user_input'', JStr ''hi''),
                               (''username_hash'', JNull)]))],
       calls = [CleanPrompt ''hi'', SentimentPrompt ''hi'',
                ResponsePrompt [] EmpathyInstruction label_neutral ''hi''],
       writes = [(''20240101_000000.json'',
                  JObj [(''timestamp'', JStr ''20240101_000000''),
                        (''sentiment_score'', JStr label_neutral),
                        (''response'', JStr ''I hear you.''),
                        (''user_input'', JStr ''hi''),
                        (''username_hash'', JNull)])]\<rparr>)"
proof -
  let ?E = "example_env dont_know ''false'' ''20240101_000000''"
  have c: "connect ?E = Inr (scripted dont_know ''false'')" by (simp add: example_env_def)
  have p1: "scripted dont_know ''false'' (CleanPrompt ''hi'') = Inr ''hi''" by (simp add: scripted_def)
  have st: "strip ''hi'' = ''hi''" by code_simp
  have p2: "scripted dont_know ''false'' (SentimentPrompt (strip ''hi'')) = Inr dont_know"
    by (simp add: scripted_def)
  have l: "load_previous_logs ?E None 3 fresh = Inr []"
    by (simp add: load_previous_logs_def truthy_def)
  have p3: "scripted dont_know ''false'' (ResponsePrompt [] EmpathyInstruction label_neutral ''hi'')
              = Inr ''I hear you.''"
    by (simp add: scripted_def)
  have nd: "\<forall>c\<in>set (code_points dont_know). \<not> is_digit c" by code_simp
  have st2: "strip ''I hear you.'' = ''I hear you.''" by code_simp
  from classification_fallback [OF c p1 p2 l p3] nd
  show ?thesis
    by (simp add: st st2 fresh_def truthy_def example_env_def)
qed

lemma code_points_replicate_one:
  "utf8_dec 0 0 (replicate n CHR ''1'') = replicate n 49"
  by (induction n) (simp_all add: Let_def)

text \<open>
  The claim C5 as it was stated (for every reply the classifier extracts the first run of
  digits) fails on a reply of 4301 digits under the default limit of 4300: the
  conversion raises \<open>ValueError\<close> and the turn ends with that error.
\<close>

theorem long_digit_run_fails_the_turn:
  "fst (run_pipeline (example_env (replicate 4301 CHR ''1'') ''false'' ''20240101_000000'')
          ''hi'' None fresh) = Inl ValueError"
proof -
  let ?reply = "replicate 4301 CHR ''1''"
  let ?E = "example_env ?reply ''false'' ''20240101_000000''"
  have c: "connect ?E = Inr (scripted ?reply ''false'')" by (simp add: example_env_def)
  have p1: "scripted ?reply ''false'' (CleanPrompt ''hi'') = Inr ''hi''" by (simp add: scripted_def)
  have p2: "scripted ?reply ''false'' (SentimentPrompt (strip ''hi'')) = Inr ?reply"
    by (simp add: scripted_def)
  have d: "is_digit 49" by code_simp
  have "first_digits (code_points ?reply) = replicate 4301 49"
    using d by (simp add: first_digits_def code_points_def code_points_replicate_one
        takeWhile_replicate dropWhile_replicate)
  then have "extract_integer ?E ?reply = Inl ValueError"
    by (simp add: extract_integer_def example_env_def)
  with analyze_user_input_replies [OF c p1 p2, of fresh]
  show ?thesis by (simp add: run_pipeline_def)
qed

subsection \<open>Risk detection\<close>

text \<open>
  C8. For every reply of the oracle to the risk question, \<open>is_warning_signal\<close> returns
  true exactly when the lower-cased reply contains the token \<^verbatim>\<open>true\<close>, and false for
  any other reply (the stripping of the reply does not matter); so a reply that is
  neither affirmative nor negative gives false.
\<close>

theorem is_warning_signal_token:
  assumes "connect E = Inr client" and "client (WarningPrompt user_input) = Inr reply"
  shows "fst (is_warning_signal E user_input s) =
           Inr (\<exists>pre post. lower reply = pre @ ''true'' @ post)"
proof -
  have "fst (is_warning_signal E user_input s) = Inr (contains ''true'' (lower reply))"
    using assms
    by (simp add: is_warning_signal_def get_openai_client_def create_def contains_true_strip)
  then show ?thesis by (simp only: contains_iff)
qed

theorem is_warning_signal_token_witness:
  "fst (is_warning_signal (example_env ''6'' ''Maybe.'' ''20240101_000000'') ''hi'' fresh) = Inr False"
proof -
  let ?E = "example_env ''6'' ''Maybe.'' ''20240101_000000''"
  have h1: "connect ?E = Inr (scripted ''6'' ''Maybe.'')" by (simp add: example_env_def)
  have h2: "scripted ''6'' ''Maybe.'' (WarningPrompt ''hi'') = Inr ''Maybe.''"
    by (simp add: scripted_def)
  have "\<not> contains ''true'' (lower ''Maybe.'')" by (simp add: lower_def lower_char_def)
  then show ?thesis
    using is_warning_signal_token [OF h1 h2, of fresh, folded contains_iff] by simp
qed

text \<open>
  C7. In \<open>generate_response\<close>, once the client exists and the previous logs are loaded,
  the risk question is sent exactly when the emotion code is one of 1 (fear), 4
  (disgust), 5 (anger), 6 (sadness), and it is sent first, before the response prompt;
  for any other code no risk question is sent.
\<close>

theorem risk_detector_gate:
  assumes "connect E = Inr client"
    and "load_previous_logs E username 3 s = Inr ctx"
    and "generate_response E score user_input username s = (r, s')"
  shows "\<exists>rest. calls s' =
            calls s @ (if score \<in> {1, 4, 5, 6} then WarningPrompt user_input # rest else rest) \<and>
          (\<forall>t. WarningPrompt t \<notin> set rest) \<and>
          (\<forall>p\<in>set rest. \<exists>i l. p = ResponsePrompt ctx i l user_input)"
proof (cases "is_negative_emotion score")
  case False
  then have n: "score \<notin> {1, 4, 5, 6}" by (simp add: is_negative_emotion_def)
  from assms False obtain p where p: "create client p s = (r, s')"
    and pp: "\<exists>i l. p = ResponsePrompt ctx i l user_input"
    by (auto simp: generate_response_def get_openai_client_def)
  from p have "calls s' = calls s @ [p]" by (auto dest: create_effect)
  with n pp show ?thesis by (intro exI [of _ "[p]"]) auto
next
  case True
  then have n: "score \<in> {1, 4, 5, 6}" by (simp add: is_negative_emotion_def)
  obtain w s1 where w: "is_warning_signal E user_input s = (w, s1)"
    by (cases "is_warning_signal E user_input s")
  with assms(1) have c1: "calls s1 = calls s @ [WarningPrompt user_input]"
    by (rule is_warning_signal_calls)
  show ?thesis
  proof (cases w)
    case (Inl e)
    with assms True w have "s' = s1" by (simp add: generate_response_def get_openai_client_def)
    with c1 n show ?thesis by (intro exI [of _ "[]"]) simp
  next
    case (Inr warning)
    with assms True w obtain p where p: "create client p s1 = (r, s')"
      and pp: "\<exists>i l. p = ResponsePrompt ctx i l user_input"
      by (auto simp: generate_response_def get_openai_client_def)
    from p have "calls s' = calls s1 @ [p]" by (auto dest: create_effect)
    with c1 n pp show ?thesis by (intro exI [of _ "[p]"]) auto
  qed
qed

theorem risk_detector_gate_witness:
  "hd (calls (snd (generate_response (example_env ''1'' ''false'' ''20240101_000000'') 1
                     very_scared None fresh))) = WarningPrompt very_scared"
proof -
  let ?E = "example_env ''1'' ''false'' ''20240101_000000''"
  obtain r s' where eq: "generate_response ?E 1 very_scared None fresh = (r, s')"
    by (cases "generate_response ?E 1 very_scared None fresh")
  have c: "connect ?E = Inr (scripted ''1'' ''false'')" by (simp add: example_env_def)
  have l: "load_previous_logs ?E None 3 fresh = Inr []"
    by (simp add: load_previous_logs_def truthy_def)
  from risk_detector_gate [OF c l eq]
  have "hd (calls s') = WarningPrompt very_scared" by (auto simp: fresh_def)
  with eq show ?thesis by simp
qed

subsection \<open>Logging and the farewell\<close>

text \<open>
  C6. A turn that returns a response has written exactly one record, holding that
  response and the user input, after the response prompt was answered; a turn that ends
  with an error (an oracle failure among them) leaves the log store as it was.
\<close>

theorem run_pipeline_logs_once:
  assumes "run_pipeline E user_input username s = (r, s')"
  shows "case r of
           Inl e \<Rightarrow> logs s' = logs s \<and> writes s' = writes s
         | Inr response \<Rightarrow>
             (\<exists>items. writes s' = writes s @ [(now E @ ''.json'', JObj items)] \<and>
                logs s' = Some (AList.update (now E @ ''.json'') (Parsed (JObj items))
                                  (case logs s of None \<Rightarrow> [] | Some files \<Rightarrow> files)) \<and>
                map_of items ''response'' = Some (JStr response) \<and>
                map_of items ''user_input'' = Some (JStr user_input)) \<and>
             (\<exists>client ctx ins label reply.
                connect E = Inr client \<and>
                last (calls s') = ResponsePrompt ctx ins label user_input \<and>
                client (ResponsePrompt ctx ins label user_input) = Inr reply \<and>
                response = strip reply)"
proof -
  obtain a s1 where a: "analyze_user_input E user_input s = (a, s1)"
    by (cases "analyze_user_input E user_input s")
  then have f1: "logs s1 = logs s \<and> writes s1 = writes s" by (rule analyze_user_input_frame)
  show ?thesis
  proof (cases a)
    case (Inl e)
    with a assms have "r = Inl e \<and> s' = s1" by (simp add: run_pipeline_def)
    with f1 show ?thesis by simp
  next
    case (Inr score)
    define sentiment_score where "sentiment_score = (case score of None \<Rightarrow> 3 | Some n \<Rightarrow> n)"
    obtain g s2 where g: "generate_response E sentiment_score user_input username s1 = (g, s2)"
      by (cases "generate_response E sentiment_score user_input username s1")
    then have f2: "logs s2 = logs s1 \<and> writes s2 = writes s1" by (rule generate_response_frame)
    show ?thesis
    proof (cases g)
      case (Inl e)
      with a Inr g assms have "r = Inl e \<and> s' = s2"
        by (simp add: run_pipeline_def sentiment_score_def)
      with f1 f2 show ?thesis by simp
    next
      case resp: (Inr response)
      obtain l s3 where l: "log_interaction E user_input sentiment_score response username s2 = (l, s3)"
        by (cases "log_interaction E user_input sentiment_score response username s2")
      show ?thesis
      proof (cases l)
        case (Inl e)
        with l have "s3 = s2" by (auto dest: log_interaction_Inl)
        moreover from a Inr g resp l Inl assms have "r = Inl e \<and> s' = s3"
          by (simp add: run_pipeline_def sentiment_score_def)
        ultimately show ?thesis using f1 f2 by simp
      next
        case (Inr u)
        with a \<open>a = Inr score\<close> g resp l assms have r: "r = Inr response" and s': "s' = s3"
          by (simp_all add: run_pipeline_def sentiment_score_def)
        from l Inr have li: "log_interaction E user_input sentiment_score response username s2 = (Inr u, s3)"
          by simp
        from log_interaction_Inr [OF li] obtain items where
          i: "writes s3 = writes s2 @ [(now E @ ''.json'', JObj items)]"
             "logs s3 = Some (AList.update (now E @ ''.json'') (Parsed (JObj items))
                             (case logs s2 of None \<Rightarrow> [] | Some files \<Rightarrow> files))"
             "calls s3 = calls s2"
             "map_of items ''response'' = Some (JStr response)"
             "map_of items ''user_input'' = Some (JStr user_input)"
          by blast
        from g resp have "generate_response E sentiment_score user_input username s1 = (Inr response, s2)"
          by simp
        from generate_response_Inr [OF this] obtain client ctx ins label reply where
          c: "connect E = Inr client"
             "last (calls s2) = ResponsePrompt ctx ins label user_input"
             "client (ResponsePrompt ctx ins label user_input) = Inr reply"
             "response = strip reply"
          by blast
        have A: "\<exists>items. writes s' = writes s @ [(now E @ ''.json'', JObj items)] \<and>
                logs s' = Some (AList.update (now E @ ''.json'') (Parsed (JObj items))
                                  (case logs s of None \<Rightarrow> [] | Some files \<Rightarrow> files)) \<and>
                map_of items ''response'' = Some (JStr response) \<and>
                map_of items ''user_input'' = Some (JStr user_input)"
          using i f1 f2 s' by (intro exI [of _ items]) simp
        have B: "\<exists>client ctx ins label reply.
                connect E = Inr client \<and>
                last (calls s') = ResponsePrompt ctx ins label user_input \<and>
                client (ResponsePrompt ctx ins label user_input) = Inr reply \<and>
                response = strip reply"
          using c i(3) s' by (intro exI [of _ client] exI [of _ ctx] exI [of _ ins] exI [of _ label] exI [of _ reply]) simp
        from A B r show ?thesis by simp
      qed
    qed
  qed
qed

theorem run_pipeline_logs_once_witness:
  "fst (run_pipeline (example_env ''7'' ''false'' ''20240101_000000'') ''hi'' None fresh) =
     Inr ''I hear you.'' \<and>
   length (writes (snd (run_pipeline (example_env ''7'' ''false'' ''20240101_000000'') ''hi'' None fresh))) = 1"
proof -
  let ?E = "example_env ''7'' ''false'' ''20240101_000000''"
  obtain r s' where eq: "run_pipeline ?E ''hi'' None fresh = (r, s')"
    by (cases "run_pipeline ?E ''hi'' None fresh")
  have "fst (run_pipeline ?E ''hi'' None fresh) = Inr ''I hear you.''" by code_simp
  with eq have r: "r = Inr ''I hear you.''" by simp
  from run_pipeline_logs_once [OF eq] r
  have "length (writes s') = 1" by (auto simp: fresh_def)
  with eq r show ?thesis by simp
qed

text \<open>
  C10. For every optional name the farewell sends at most the farewell prompt, nothing
  else: no classification, no risk question, and the log store is unchanged; when the
  oracle answers, the result is its stripped reply.
\<close>

theorem farewell_leaves_store:
  assumes "generate_farewell_message E username s = (r, s')"
  shows "logs s' = logs s \<and> writes s' = writes s \<and>
         (\<exists>new. calls s' = calls s @ new \<and>
            set new \<subseteq> {FarewellPrompt (if truthy username then username else None)}) \<and>
         (\<forall>client reply.
            connect E = Inr client \<and>
            client (FarewellPrompt (if truthy username then username else None)) = Inr reply \<longrightarrow>
            r = Inr (strip reply) \<and>
            calls s' = calls s @ [FarewellPrompt (if truthy username then username else None)])"
proof (cases "connect E")
  case (Inl e)
  with assms have "s' = s" by (simp add: generate_farewell_message_def get_openai_client_def)
  with Inl show ?thesis by simp
next
  case (Inr client)
  let ?p = "FarewellPrompt (if truthy username then username else None)"
  from Inr assms have c: "create client ?p s = (r, s')"
    by (simp add: generate_farewell_message_def get_openai_client_def)
  then have "calls s' = calls s @ [?p] \<and> logs s' = logs s \<and> writes s' = writes s"
    by (rule create_effect)
  moreover have "\<forall>reply. client ?p = Inr reply \<longrightarrow> r = Inr (strip reply)"
    using c by (auto simp: create_def)
  ultimately show ?thesis using Inr by auto
qed

theorem farewell_leaves_store_witness:
  "generate_farewell_message (example_env ''7'' ''false'' ''20240101_000009'') (Some ''kim'')
       \<lparr>logs = Some [], calls = [], writes = []\<rparr> =
     (Inr ''Take care.'', \<lparr>logs = Some [], calls = [FarewellPrompt (Some ''kim'')], writes = []\<rparr>)"
proof -
  let ?E = "example_env ''7'' ''false'' ''20240101_000009''"
  let ?s = "\<lparr>logs = Some [], calls = [], writes = []\<rparr>"
  obtain r s' where eq: "generate_farewell_message ?E (Some ''kim'') ?s = (r, s')"
    by (cases "generate_farewell_message ?E (Some ''kim'') ?s")
  have c: "connect ?E = Inr (scripted ''7'' ''false'')" by (simp add: example_env_def)
  have t: "truthy (Some ''kim'')" by (simp add: truthy_def)
  have a: "scripted ''7'' ''false'' (FarewellPrompt (if truthy (Some ''kim'') then Some ''kim'' else None))
             = Inr ''Take care.''"
    by (simp add: scripted_def)
  have st: "strip ''Take care.'' = ''Take care.''" by code_simp
  from farewell_leaves_store [OF eq] c a t st
  have "logs s' = Some [] \<and> writes s' = [] \<and> r = Inr ''Take care.'' \<and>
        calls s' = [FarewellPrompt (Some ''kim'')]"
    by auto
  then have "r = Inr ''Take care.'' \<and> s' = \<lparr>logs = Some [], calls = [FarewellPrompt (Some ''kim'')], writes = []\<rparr>"
    by (cases s') simp
  with eq show ?thesis by simp
qed

text \<open>The farewell word "annyeong" typed in the loop of \<^verbatim>\<open>main\<close> takes that path.\<close>

lemma main_iteration_farewell_word:
  "main_iteration (example_env ''7'' ''false'' ''20240101_000009'') ''kim''
       [CHR 0xEC, CHR 0x95, CHR 0x88, CHR 0xEB, CHR 0x85, CHR 0x95]
       \<lparr>logs = Some [], calls = [], writes = []\<rparr> =
     (Inr (Farewell ''Take care.''),
      \<lparr>logs = Some [], calls = [FarewellPrompt (Some ''kim'')], writes = []\<rparr>)"
  by code_simp

subsection \<open>The scan of the log directory\<close>

lemma scan_filter:
  "scan files uh limit names acc = scan files uh limit (filter (endswith ''.json'') names) acc"
proof (induction names arbitrary: acc)
  case Nil
  show ?case by simp
next
  case (Cons n ns)
  show ?case
  proof (cases "endswith ''.json'' n")
    case False
    with Cons show ?thesis by simp
  next
    case True
    with Cons show ?thesis
      by (simp split: option.splits stored.splits json.splits add: Let_def)
  qed
qed

lemma scan_cong:
  "\<forall>n\<in>set names. endswith ''.json'' n \<longrightarrow> map_of files n = map_of files' n \<Longrightarrow>
     scan files uh limit names acc = scan files' uh limit names acc"
proof (induction names arbitrary: acc)
  case Nil
  show ?case by simp
next
  case (Cons n ns)
  show ?case
  proof (cases "endswith ''.json'' n")
    case False
    with Cons show ?thesis by simp
  next
    case True
    with Cons.prems have "map_of files n = map_of files' n" by simp
    moreover from Cons have "\<And>acc. scan files uh limit ns acc = scan files' uh limit ns acc" by simp
    ultimately show ?thesis
      by (simp split: option.splits stored.splits json.splits add: Let_def)
  qed
qed

lemma length_update_le: "length (AList.update k v al) \<le> Suc (length al)"
  by (induction al) auto

lemma scan_reaches_bad:
  assumes "endswith ''.json'' name"
    and "map_of files name = Some Malformed \<or> map_of files name = Some Unreadable"
  shows "int (length acc) +
           int (length (filter (belongs_to uh files) (filter (endswith ''.json'') newer))) < limit \<Longrightarrow>
         \<exists>e. scan files uh limit (newer @ name # older) acc = Inl e"
proof (induction newer arbitrary: acc)
  case Nil
  from assms show ?case by auto
next
  case (Cons n ns)
  show ?case
  proof (cases "endswith ''.json'' n")
    case False
    with Cons show ?thesis by simp
  next
    case json: True
    show ?thesis
    proof (cases "belongs_to uh files n")
      case False
      with Cons.prems json
      have "\<exists>e. scan files uh limit (ns @ name # older) acc = Inl e"
        by (intro Cons.IH) simp
      with False json show ?thesis
        by (auto simp: belongs_to_def split: option.splits stored.splits json.splits)
    next
      case True
      then obtain data where d: "map_of files n = Some (Parsed (JObj data))"
        and u: "jget data ''username_hash'' JNull = JStr uh"
        by (auto simp: belongs_to_def split: option.splits stored.splits json.splits)
      show ?thesis
      proof (cases "hash_key (jget data ''timestamp'' (JStr (remove_json n)))")
        case None
        with d u json show ?thesis by simp
      next
        case (Some k)
        let ?acc = "AList.update k \<lparr>log_input = jget data ''user_input'' (JStr ''''),
                       log_response = jget data ''response'' (JStr '''')\<rparr> acc"
        have "length ?acc \<le> Suc (length acc)" by (rule length_update_le)
        with Cons.prems json True
        have lt: "int (length ?acc) +
           int (length (filter (belongs_to uh files) (filter (endswith ''.json'') ns))) < limit"
          by simp
        then have "\<exists>e. scan files uh limit (ns @ name # older) ?acc = Inl e" by (rule Cons.IH)
        moreover from lt have "\<not> limit \<le> int (length ?acc)" by simp
        ultimately show ?thesis using d u json Some by (simp add: Let_def)
      qed
    qed
  qed
qed

lemma sorted_names_update:
  assumes "\<not> endswith ''.json'' name"
  shows "filter (endswith ''.json'') (rev (sort (remdups (map fst (AList.update name bad files))))) =
         filter (endswith ''.json'') (rev (sort (remdups (map fst files))))"
proof -
  let ?P = "endswith ''.json''"
  let ?a = "sort (filter ?P (remdups (map fst (AList.update name bad files))))"
  let ?b = "sort (filter ?P (remdups (map fst files)))"
  have "set ?a = set ?b" using assms by (auto simp: AList.update_keys)
  moreover have "sorted ?a" "sorted ?b" "distinct ?a" "distinct ?b" by simp_all
  ultimately have "?a = ?b" by (intro sorted_distinct_set_unique)
  then show ?thesis by (simp only: rev_filter [symmetric] filter_sort)
qed


lemma written_by_append_update:
  assumes "map_of data ''timestamp'' = Some (JStr t)"
  shows "written_by_append files \<Longrightarrow>
         written_by_append (AList.update (t @ ''.json'') (Parsed (JObj data)) files)"
  using assms unfolding written_by_append_def by (induction files) auto






lemma kim_turn_is_written:
  "logs (snd (log_interaction (example_env category risk t) text 7 ''I hear you.'' (Some ''kim'')
                \<lparr>logs = Some [], calls = [], writes = []\<rparr>)) = Some [kim_turn t text]"
  by (simp add: log_interaction_def emotion_mapping_def truthy_def encrypt_name_def
      example_env_def kim_turn_def Let_def)

lemma log_interaction_keeps_written_by_append:
  assumes "log_interaction E user_input score response_text username s = (Inr u, s')"
    and "written_by_append (case logs s of None \<Rightarrow> [] | Some files \<Rightarrow> files)"
  shows "written_by_append (case logs s' of None \<Rightarrow> [] | Some files \<Rightarrow> files)"
proof -
  from log_interaction_Inr [OF assms(1)] obtain items where
    "logs s' = Some (AList.update (now E @ ''.json'') (Parsed (JObj items))
                       (case logs s of None \<Rightarrow> [] | Some files \<Rightarrow> files))"
    and "map_of items ''timestamp'' = Some (JStr (now E))"
    by blast
  with assms(2) show ?thesis by (simp add: written_by_append_update)
qed

lemma load_previous_logs_anonymous:
  "\<not> truthy username \<Longrightarrow> load_previous_logs E username limit s = Inr []"
  by (simp add: load_previous_logs_def)

lemma scan_Cons_cases:
  assumes "scan files uh limit (n # ns) acc = Inr found"
  obtains (skip) "scan files uh limit ns acc = Inr found"
  | (add) kv where "endswith ''.json'' n" and "from_file uh files n kv"
      and "if limit \<le> int (length (AList.update (fst kv) (snd kv) acc))
           then found = AList.update (fst kv) (snd kv) acc
           else scan files uh limit ns (AList.update (fst kv) (snd kv) acc) = Inr found"
proof (cases "endswith ''.json'' n")
  case False
  with assms have "scan files uh limit ns acc = Inr found" by simp
  then show ?thesis by (rule skip)
next
  case json: True
  with assms obtain data where d: "map_of files n = Some (Parsed (JObj data))"
    by (auto split: option.splits stored.splits json.splits)
  show ?thesis
  proof (cases "jget data ''username_hash'' JNull = JStr uh")
    case False
    with assms json d have "scan files uh limit ns acc = Inr found" by simp
    then show ?thesis by (rule skip)
  next
    case True
    with assms json d obtain k where
      k: "hash_key (jget data ''timestamp'' (JStr (remove_json n))) = Some k"
      by (auto split: option.splits)
    let ?v = "\<lparr>log_input = jget data ''user_input'' (JStr ''''),
               log_response = jget data ''response'' (JStr '''')\<rparr>"
    have f: "from_file uh files n (k, ?v)" using d True k by (simp add: from_file_def)
    have "if limit \<le> int (length (AList.update k ?v acc))
           then found = AList.update k ?v acc
           else scan files uh limit ns (AList.update k ?v acc) = Inr found"
      using assms json d True k by (auto simp: Let_def)
    then show ?thesis using add [of "(k, ?v)"] json f by simp
  qed
qed

lemma scan_length:
  "scan files uh limit names acc = Inr found \<Longrightarrow> int (length acc) < limit \<Longrightarrow>
     int (length found) \<le> limit"
proof (induction names arbitrary: acc)
  case Nil
  then show ?case by simp
next
  case (Cons n ns)
  from Cons.prems(1) show ?case
  proof (cases rule: scan_Cons_cases)
    case skip
    with Cons show ?thesis by simp
  next
    case (add kv)
    let ?acc = "AList.update (fst kv) (snd kv) acc"
    have le: "length ?acc \<le> Suc (length acc)" by (rule length_update_le)
    show ?thesis
    proof (cases "limit \<le> int (length ?acc)")
      case True
      with add(3) le Cons.prems(2) show ?thesis by simp
    next
      case False
      with add(3) have "scan files uh limit ns ?acc = Inr found" by simp
      moreover from False have "int (length ?acc) < limit" by simp
      ultimately show ?thesis by (rule Cons.IH)
    qed
  qed
qed

lemma set_update_subset: "set (AList.update k v al) \<subseteq> insert (k, v) (set al)"
  by (induction al) auto

lemma scan_owner:
  "scan files uh limit names acc = Inr found \<Longrightarrow> kv \<in> set found \<Longrightarrow>
     kv \<in> set acc \<or> (\<exists>n\<in>set names. endswith ''.json'' n \<and> from_file uh files n kv)"
proof (induction names arbitrary: acc)
  case Nil
  then show ?case by simp
next
  case (Cons n ns)
  from Cons.prems(1) show ?case
  proof (cases rule: scan_Cons_cases)
    case skip
    from Cons.IH [OF skip Cons.prems(2)] show ?thesis by auto
  next
    case (add kv')
    let ?acc = "AList.update (fst kv') (snd kv') acc"
    have sub: "set ?acc \<subseteq> insert kv' (set acc)"
      using set_update_subset [of "fst kv'" "snd kv'" acc] by simp
    show ?thesis
    proof (cases "limit \<le> int (length ?acc)")
      case True
      with add(3) Cons.prems(2) have "kv \<in> set ?acc" by simp
      with sub add(1,2) show ?thesis by auto
    next
      case False
      with add(3) have "scan files uh limit ns ?acc = Inr found" by simp
      from Cons.IH [OF this Cons.prems(2)] sub add(1,2) show ?thesis by auto
    qed
  qed
qed

lemma scan_distinct:
  "scan files uh limit names acc = Inr found \<Longrightarrow> distinct (map fst acc) \<Longrightarrow>
     distinct (map fst found)"
proof (induction names arbitrary: acc)
  case Nil
  then show ?case by simp
next
  case (Cons n ns)
  from Cons.prems(1) show ?case
  proof (cases rule: scan_Cons_cases)
    case skip
    with Cons show ?thesis by simp
  next
    case (add kv)
    let ?acc = "AList.update (fst kv) (snd kv) acc"
    have d: "distinct (map fst ?acc)" using Cons.prems(2) by (rule AList.distinct_update)
    show ?thesis
    proof (cases "limit \<le> int (length ?acc)")
      case True
      with add(3) d show ?thesis by simp
    next
      case False
      with add(3) have "scan files uh limit ns ?acc = Inr found" by simp
      then show ?thesis using d by (rule Cons.IH)
    qed
  qed
qed

lemma sorted_by_key:
  fixes f :: "key \<Rightarrow> 'a::linorder"
  assumes "distinct (map fst d)" and "inj_on f (fst ` set d)"
    and "\<And>a b. a \<in> fst ` set d \<Longrightarrow> b \<in> fst ` set d \<Longrightarrow> f a < f b \<Longrightarrow> key_less a b"
  shows "sorted_wrt key_less (map fst (sort_key (\<lambda>kv. f (fst kv)) d))"
proof -
  let ?d = "sort_key (\<lambda>kv. f (fst kv)) d"
  have s: "sorted (map f (map fst ?d))" using sorted_sort_key [of "\<lambda>kv. f (fst kv)" d]
    by (simp add: comp_def)
  have "distinct (map fst ?d)" using assms(1) by (simp add: distinct_map)
  moreover have "inj_on f (set (map fst ?d))" using assms(2) by simp
  ultimately have "distinct (map f (map fst ?d))" by (simp only: distinct_map [of f] simp_thms)
  with s have "sorted_wrt (<) (map f (map fst ?d))" by (simp only: strict_sorted_iff simp_thms)
  then have "sorted_wrt (\<lambda>a b. f a < f b) (map fst ?d)" by (simp only: sorted_wrt_map)
  then show ?thesis
    by (rule sorted_wrt_mono_rel [rotated]) (use assms(3) in auto)
qed

lemma sorted_items_sorted:
  assumes "sorted_items d = Inr d'" and "distinct (map fst d)"
  shows "sorted_wrt key_less (map fst d') \<and> set d' = set d \<and> length d' = length d"
proof (cases "length d \<le> 1")
  case True
  with assms have "d' = d" by (simp add: sorted_items_def)
  moreover from True have "sorted_wrt key_less (map fst d)"
    by (cases d) (auto simp: Suc_le_eq)
  ultimately show ?thesis by simp
next
  case long: False
  show ?thesis
  proof (cases "list_all (\<lambda>kv. is_KStr (fst kv)) d")
    case True
    with long assms have d': "d' = sort_key (\<lambda>kv. str_of (fst kv)) d"
      by (simp add: sorted_items_def)
    from True have ks: "\<And>a. a \<in> fst ` set d \<Longrightarrow> \<exists>t. a = KStr t"
      by (auto simp: list_all_iff elim: is_KStr.elims)
    have "inj_on str_of (fst ` set d)"
    proof (rule inj_onI)
      fix a b assume "a \<in> fst ` set d" "b \<in> fst ` set d" "str_of a = str_of b"
      moreover from this ks obtain t u where "a = KStr t" "b = KStr u" by blast
      ultimately show "a = b" by simp
    qed
    moreover have "key_less a b"
      if "a \<in> fst ` set d" "b \<in> fst ` set d" "str_of a < str_of b" for a b
    proof -
      from that ks obtain t u where "a = KStr t" "b = KStr u" by blast
      with that(3) show ?thesis by simp
    qed
    ultimately have "sorted_wrt key_less (map fst d')"
      unfolding d' using assms(2) by (intro sorted_by_key)
    then show ?thesis by (simp add: d')
  next
    case False
    with long assms have all: "list_all (\<lambda>kv. is_KNum (fst kv)) d"
      and d': "d' = sort_key (\<lambda>kv. num_of (fst kv)) d"
      by (auto simp: sorted_items_def split: if_splits)
    from all have ks: "\<And>a. a \<in> fst ` set d \<Longrightarrow> \<exists>i. a = KNum i"
      by (auto simp: list_all_iff elim: is_KNum.elims)
    have "inj_on num_of (fst ` set d)"
    proof (rule inj_onI)
      fix a b assume "a \<in> fst ` set d" "b \<in> fst ` set d" "num_of a = num_of b"
      moreover from this ks obtain t u where "a = KNum t" "b = KNum u" by blast
      ultimately show "a = b" by simp
    qed
    moreover have "key_less a b"
      if "a \<in> fst ` set d" "b \<in> fst ` set d" "num_of a < num_of b" for a b
    proof -
      from that ks obtain t u where "a = KNum t" "b = KNum u" by blast
      with that(3) show ?thesis by simp
    qed
    ultimately have "sorted_wrt key_less (map fst d')"
      unfolding d' using assms(2) by (intro sorted_by_key)
    then show ?thesis by (simp add: d')
  qed
qed

lemma load_previous_logs_positive_limit:
  assumes "load_previous_logs E username limit s = Inr found" and "1 \<le> limit"
    and "truthy username"
  shows "int (length found) \<le> limit \<and>
         (\<forall>kv\<in>set found. \<exists>files filename. logs s = Some files \<and> filename \<in> fst ` set files \<and>
            endswith ''.json'' filename \<and>
            from_file (encrypt_name E (the username)) files filename kv) \<and>
         sorted_wrt key_less (map fst found)"
proof -
  from assms(1,3) obtain files where l: "logs s = Some files"
    by (cases "logs s") (auto simp: load_previous_logs_def listdir_def)
  let ?names = "rev (sort (remdups (map fst files)))"
  let ?uh = "encrypt_name E (the username)"
  from assms(1,3) l obtain d where sc: "scan files ?uh limit ?names [] = Inr d"
    and so: "sorted_items d = Inr found"
    by (auto simp: load_previous_logs_def listdir_def split: sum.splits)
  have di: "distinct (map fst d)" using sc by (rule scan_distinct) simp
  from sorted_items_sorted [OF so di] have
    s: "sorted_wrt key_less (map fst found)" "set found = set d" "length found = length d"
    by simp_all
  have "int (length d) \<le> limit" using sc assms(2) by (intro scan_length) auto
  moreover have "\<forall>kv\<in>set d. \<exists>filename. filename \<in> fst ` set files \<and>
            endswith ''.json'' filename \<and> from_file ?uh files filename kv"
  proof
    fix kv assume "kv \<in> set d"
    with scan_owner [OF sc this] show "\<exists>filename. filename \<in> fst ` set files \<and>
            endswith ''.json'' filename \<and> from_file ?uh files filename kv"
      by auto
  qed
  ultimately show ?thesis using s l by simp
qed

text \<open>
  C2 (as amended). Only entries whose name does not end in \<^verbatim>\<open>.json\<close> are skipped:
  adding or replacing such an entry, whatever its content, does not change the result.
  A malformed or unreadable \<^verbatim>\<open>.json\<close> record that the scan reaches (fewer than
  \<open>limit\<close> records of the user have a later file name) makes the retrieval end with an
  error; nothing is returned.
\<close>

theorem malformed_record_handling:
  assumes "truthy username" and "logs s = Some files"
  shows "(\<forall>name bad. \<not> endswith ''.json'' name \<longrightarrow>
            load_previous_logs E username limit (s\<lparr>logs := Some (AList.update name bad files)\<rparr>) =
            load_previous_logs E username limit s) \<and>
         (\<forall>newer name older.
            rev (sort (remdups (map fst files))) = newer @ name # older \<and>
            endswith ''.json'' name \<and>
            (map_of files name = Some Malformed \<or> map_of files name = Some Unreadable) \<and>
            int (length (filter (belongs_to (encrypt_name E (the username)) files)
                           (filter (endswith ''.json'') newer))) < limit \<longrightarrow>
            (\<exists>e. load_previous_logs E username limit s = Inl e))"
proof (intro conjI allI impI)
  fix name bad
  assume nj: "\<not> endswith ''.json'' name"
  let ?uh = "encrypt_name E (the username)"
  let ?files' = "AList.update name bad files"
  let ?names = "rev (sort (remdups (map fst files)))"
  let ?names' = "rev (sort (remdups (map fst ?files')))"
  have "scan ?files' ?uh limit ?names' [] =
        scan ?files' ?uh limit (filter (endswith ''.json'') ?names') []"
    by (rule scan_filter)
  also have "\<dots> = scan ?files' ?uh limit (filter (endswith ''.json'') ?names) []"
    by (simp only: sorted_names_update [OF nj])
  also have "\<dots> = scan files ?uh limit (filter (endswith ''.json'') ?names) []"
    using nj by (intro scan_cong) (auto simp: AList.update_conv')
  also have "\<dots> = scan files ?uh limit ?names []"
    by (rule scan_filter [symmetric])
  finally show "load_previous_logs E username limit (s\<lparr>logs := Some ?files'\<rparr>) =
                load_previous_logs E username limit s"
    using assms by (simp add: load_previous_logs_def listdir_def)
next
  fix newer name older
  assume a: "rev (sort (remdups (map fst files))) = newer @ name # older \<and>
            endswith ''.json'' name \<and>
            (map_of files name = Some Malformed \<or> map_of files name = Some Unreadable) \<and>
            int (length (filter (belongs_to (encrypt_name E (the username)) files)
                           (filter (endswith ''.json'') newer))) < limit"
  then have "\<exists>e. scan files (encrypt_name E (the username)) limit (newer @ name # older) [] = Inl e"
    by (intro scan_reaches_bad) auto
  with a assms show "\<exists>e. load_previous_logs E username limit s = Inl e"
    by (auto simp: load_previous_logs_def listdir_def)
qed

theorem malformed_record_handling_witness:
  "load_previous_logs (example_env ''7'' ''false'' ''20240103_000000'') (Some ''kim'') 3
     \<lparr>logs = Some [kim_turn ''20240101_000000'' ''hi'', (''notes.txt'', Malformed)],
      calls = [], writes = []\<rparr> =
   Inr [(KStr ''20240101_000000'', \<lparr>log_input = JStr ''hi'', log_response = JStr ''I hear you.''\<rparr>)] \<and>
   (\<exists>e. load_previous_logs (example_env ''7'' ''false'' ''20240103_000000'') (Some ''kim'') 3
     \<lparr>logs = Some [kim_turn ''20240101_000000'' ''hi'', (''20240102_000000.json'', Unreadable)],
      calls = [], writes = []\<rparr> = Inl e)"
proof -
  define E where "E = example_env ''7'' ''false'' ''20240103_000000''"
  define good where "good = [kim_turn ''20240101_000000'' ''hi'']"
  define bad where
    "bad = [kim_turn ''20240101_000000'' ''hi'', (''20240102_000000.json'', Unreadable)]"
  define sg where "sg = \<lparr>logs = Some good, calls = [], writes = []\<rparr>"
  define sb where "sb = \<lparr>logs = Some bad, calls = [], writes = []\<rparr>"
  have t: "truthy (Some ''kim'')" by (simp add: truthy_def)
  have lg: "logs sg = Some good" by (simp add: sg_def)
  have lb: "logs sb = Some bad" by (simp add: sb_def)
  have nj: "\<not> endswith ''.json'' ''notes.txt''" by (simp add: endswith_def)
  have up: "sg\<lparr>logs := Some (AList.update ''notes.txt'' Malformed good)\<rparr> =
              \<lparr>logs = Some [kim_turn ''20240101_000000'' ''hi'', (''notes.txt'', Malformed)],
               calls = [], writes = []\<rparr>"
    by (simp add: sg_def good_def kim_turn_def)
  have g: "load_previous_logs E (Some ''kim'') 3 sg =
      Inr [(KStr ''20240101_000000'', \<lparr>log_input = JStr ''hi'', log_response = JStr ''I hear you.''\<rparr>)]"
    unfolding E_def sg_def good_def by code_simp
  from malformed_record_handling [OF t lg, of E 3] nj
  have "load_previous_logs E (Some ''kim'') 3
          (sg\<lparr>logs := Some (AList.update ''notes.txt'' Malformed good)\<rparr>) =
        load_previous_logs E (Some ''kim'') 3 sg"
    by blast
  then have A: "load_previous_logs E (Some ''kim'') 3
      \<lparr>logs = Some [kim_turn ''20240101_000000'' ''hi'', (''notes.txt'', Malformed)],
       calls = [], writes = []\<rparr> =
      Inr [(KStr ''20240101_000000'', \<lparr>log_input = JStr ''hi'', log_response = JStr ''I hear you.''\<rparr>)]"
    unfolding up g .
  have names: "rev (sort (remdups (map fst bad))) =
                 [] @ ''20240102_000000.json'' # [''20240101_000000.json'']"
    unfolding bad_def by code_simp
  have j: "endswith ''.json'' ''20240102_000000.json''" by (simp add: endswith_def)
  have m: "map_of bad ''20240102_000000.json'' = Some Malformed \<or>
           map_of bad ''20240102_000000.json'' = Some Unreadable"
    by (simp add: bad_def kim_turn_def)
  have c: "int (length (filter (belongs_to (encrypt_name E (the (Some ''kim''))) bad)
                           (filter (endswith ''.json'') []))) < 3"
    by simp
  from malformed_record_handling [OF t lb, of E 3] names j m c
  have B: "\<exists>e. load_previous_logs E (Some ''kim'') 3 sb = Inl e"
    by blast
  from A B show ?thesis unfolding E_def sb_def bad_def by simp
qed

text \<open>
  The claim C2 as it was stated (a malformed record is skipped and the readable records
  are returned) fails: with one readable record of the user and a later file that is not
  JSON the retrieval raises \<open>JSONDecodeError\<close>.
\<close>

theorem malformed_record_is_fatal:
  "load_previous_logs (example_env ''7'' ''false'' ''20240103_000000'') (Some ''kim'') 3
     \<lparr>logs = Some [kim_turn ''20240101_000000'' ''hi'', (''20240102_000000.json'', Malformed)],
      calls = [], writes = []\<rparr> = Inl JSONDecodeError"
  by code_simp




subsection \<open>Defects shown by evaluation\<close>

lemma emotion_mapping_dom: "(emotion_mapping k \<noteq> None) = (1 \<le> k \<and> k \<le> 7)"
  by (auto simp: emotion_mapping_def)

lemma log_interaction_unknown_code:
  "\<not> (1 \<le> code \<and> code \<le> 7) \<Longrightarrow>
     log_interaction E user_input code response_text username s = (Inl KeyError, s)"
  using emotion_mapping_dom [of code] by (auto simp: log_interaction_def)

text \<open>
  C1. The claim: the category that reaches response synthesis and logging is one of the
  codes 1-7 (or the fallback 3), and logging never fails on an unknown code. On the
  classification reply \<^verbatim>\<open>9\<close> the code passes 9 on: the response is synthesised with
  the "unknown" label and \<open>log_interaction\<close> then raises \<open>KeyError\<close>, so the turn is
  lost and nothing is logged.
\<close>

theorem unknown_category_reaches_logging:
  "run_pipeline (example_env ''9'' ''false'' ''20240101_000000'') ''hi'' None fresh =
     (Inl KeyError,
      \<lparr>logs = None,
       calls = [CleanPrompt ''hi'', SentimentPrompt ''hi'',
                ResponsePrompt [] EmpathyInstruction label_unknown ''hi''],
       writes = []\<rparr>)"
  by code_simp

text \<open>
  Without the directory, response synthesis for a named user always ends with
  \<open>FileNotFoundError\<close>, before any prompt is sent.
\<close>

lemma generate_response_without_directory:
  assumes "connect E = Inr client" and "truthy username" and "logs s = None"
  shows "generate_response E score user_input username s = (Inl FileNotFoundError, s)"
  using assms
  by (simp add: generate_response_def get_openai_client_def load_previous_logs_def listdir_def)

text \<open>
  C3. The claim: a read failure during context retrieval, such as the log directory not
  existing yet on the first turn of a named session, gives an empty context and the turn
  goes on. In the code the first turn of a named user in a world without the directory
  stops with \<open>FileNotFoundError\<close> before any response prompt is sent; the directory is
  only created by \<open>log_interaction\<close> (which creates it when it is missing), and that
  is never reached.
\<close>

theorem first_named_turn_aborts:
  "run_pipeline (example_env ''7'' ''false'' ''20240101_000000'') ''hi'' (Some ''kim'') fresh =
     (Inl FileNotFoundError,
      \<lparr>logs = None, calls = [CleanPrompt ''hi'', SentimentPrompt ''hi''], writes = []\<rparr>)"
  by code_simp

text \<open>
  C4. The claim: \<open>load_previous_logs\<close> returns at most \<open>limit\<close> records, for every
  limit. With limit 0 and one stored record of the user the code returns that record:
  the length is compared with the limit only after the record was added. (For a limit of
  at least 1 the bound, the owner and the order hold: \<open>load_previous_logs_positive_limit\<close>;
  without a name the result is empty: \<open>load_previous_logs_anonymous\<close>.)
\<close>

theorem limit_zero_returns_one:
  "load_previous_logs (example_env ''7'' ''false'' ''20240101_000001'') (Some ''kim'') 0
     \<lparr>logs = Some [(''20240101_000000.json'',
               Parsed (JObj [(''timestamp'', JStr ''20240101_000000''),
                             (''sentiment_score'', JStr label_happiness),
                             (''response'', JStr ''I hear you.''),
                             (''user_input'', JStr ''hi''),
                             (''username_hash'', JStr ''sha256:kim'')]))],
      calls = [], writes = []\<rparr> =
   Inr [(KStr ''20240101_000000'',
         \<lparr>log_input = JStr ''hi'', log_response = JStr ''I hear you.''\<rparr>)]"
  by code_simp

end
